theory Spec2Isabelle
  imports Complex_Main "HOL-Library.Multiset" "HOL-Library.Sublist"
begin

section \<open>Data model of \<open>src/product-service.js\<close>\<close>

text \<open>
  The body of an upstream response is parsed JSON. A number of the body is kept as the real
  it denotes: the service does no arithmetic on it and only tests it for being zero.
  An object is its list of own properties, with distinct names.
\<close>

datatype json =
    JNull
  | JBool bool
  | JNum real
  | JStr string
  | JArr "json list"
  | JObj "(string \<times> json) list"

text \<open>A thrown JavaScript error: its \<open>name\<close> and its \<open>message\<close>, the two properties
  that \<open>handleError\<close> inspects.\<close>

datatype jserror = JSError (name: string) (message: string)

record category =
  catName :: string
  catEndpoint :: string

text \<open>
  The global \<open>CONFIG\<close> object is not part of the source files; the service only reads it.
  It is a parameter of every function. \<open>RETRY_COUNT\<close> is a non-negative integer and the
  durations are non-negative numbers of milliseconds.
\<close>

record config =
  BASE_URL :: string
  getCategoryUrl :: "(string \<Rightarrow> string) option"
  TIMEOUT :: nat
  RETRY_COUNT :: nat
  RETRY_DELAY :: nat
  CACHE_ENABLED :: bool
  EXPIRY_TIME :: int
  MAX_SIZE :: nat
  categories :: "category list"
  TIMEOUT_ERROR :: string
  NETWORK_ERROR :: string
  LOADING_ERROR :: string

text \<open>
  An element of a JavaScript array of products is a record or \<open>undefined\<close>, which is what a
  read beyond the end of an array gives and what the shuffle can leave in a cell it writes.
  \<open>None\<close> is \<open>undefined\<close>.
\<close>

type_synonym element = "json option"

record cache_entry =
  data :: "element list"
  timestamp :: int

text \<open>
  \<open>this.cache\<close> is a JavaScript \<open>Map\<close>: keys are distinct and iteration follows the order
  in which keys were first set. It is an association list in that order.
\<close>

type_synonym cache = "(string \<times> cache_entry) list"


section \<open>Validation of upstream records\<close>

text \<open>JavaScript truthiness of a JSON value: \<open>null\<close>, \<open>false\<close>, \<open>0\<close> and \<open>""\<close> are falsy;
  every array and every object is truthy, also an empty one.\<close>

fun truthy :: "json \<Rightarrow> bool" where
  "truthy JNull = False"
| "truthy (JBool b) = b"
| "truthy (JNum x) = (x \<noteq> 0)"
| "truthy (JStr s) = (s \<noteq> [])"
| "truthy (JArr xs) = True"
| "truthy (JObj kvs) = True"

text \<open>Reading property \<open>f\<close> of a non-null value: \<open>None\<close> is \<open>undefined\<close>. Only objects carry
  the six names the service reads.\<close>

fun getProp :: "json \<Rightarrow> string \<Rightarrow> json option" where
  "getProp (JObj kvs) f = map_of kvs f"
| "getProp v f = None"

definition present :: "json \<Rightarrow> string \<Rightarrow> bool" where
  "present product f = (case getProp product f of None \<Rightarrow> False | Some v \<Rightarrow> truthy v)"

text \<open>The callback of \<open>data.filter\<close> in \<open>fetchProducts\<close>.\<close>

definition isValid :: "json \<Rightarrow> bool" where
  "isValid product =
     ((present product ''title_clean'' \<or> present product ''spbt'') \<and>
      (present product ''media_urls'' \<or> present product ''ztURL'') \<and>
      (present product ''converted_link'' \<or> present product ''spURL''))"

definition notAFunction :: jserror where
  "notAFunction = JSError ''TypeError'' ''data.filter is not a function''"

definition nullProperty :: jserror where
  "nullProperty =
     JSError ''TypeError'' ''Cannot read properties of null (reading title_clean)''"

text \<open>
  \<open>data.filter(product => ...)\<close>: only an array has \<open>filter\<close>; the callback reads
  \<open>product.title_clean\<close> first, which throws on a \<open>null\<close> element.
\<close>

definition validProducts :: "json \<Rightarrow> jserror + json list" where
  "validProducts parsed =
     (case parsed of
        JArr products \<Rightarrow>
          if JNull \<in> set products then Inl nullProperty
          else Inr (filter isValid products)
      | _ \<Rightarrow> Inl notAFunction)"


section \<open>Error classification\<close>

fun startsWith :: "string \<Rightarrow> string \<Rightarrow> bool" where
  "startsWith s [] = True"
| "startsWith [] (c # cs) = False"
| "startsWith (d # ds) (c # cs) = (d = c \<and> startsWith ds cs)"

text \<open>\<open>String.prototype.includes\<close>.\<close>

fun stringIncludes :: "string \<Rightarrow> string \<Rightarrow> bool" where
  "stringIncludes [] sub = (sub = [])"
| "stringIncludes (c # cs) sub = (startsWith (c # cs) sub \<or> stringIncludes cs sub)"

definition handleError :: "config \<Rightarrow> jserror \<Rightarrow> jserror" where
  "handleError cfg error =
     (if name error = ''AbortError'' then JSError ''Error'' (TIMEOUT_ERROR cfg)
      else if stringIncludes (message error) ''Failed to fetch'' then JSError ''Error'' (NETWORK_ERROR cfg)
      else JSError ''Error'' (LOADING_ERROR cfg))"

text \<open>The three user-facing kinds, and the kind that the checks of \<open>handleError\<close> select.\<close>

datatype error_kind = TimeoutError | NetworkError | LoadingError

definition classify :: "jserror \<Rightarrow> error_kind" where
  "classify error =
     (if name error = ''AbortError'' then TimeoutError
      else if stringIncludes (message error) ''Failed to fetch'' then NetworkError
      else LoadingError)"

fun kindMessage :: "config \<Rightarrow> error_kind \<Rightarrow> string" where
  "kindMessage cfg TimeoutError = TIMEOUT_ERROR cfg"
| "kindMessage cfg NetworkError = NETWORK_ERROR cfg"
| "kindMessage cfg LoadingError = LOADING_ERROR cfg"


section \<open>The cache\<close>

text \<open>\<open>Map.prototype.set\<close>: an existing key keeps its position, a new key goes last.\<close>

fun cacheSet :: "string \<Rightarrow> cache_entry \<Rightarrow> cache \<Rightarrow> cache" where
  "cacheSet k v [] = [(k, v)]"
| "cacheSet k v ((k', v') # rest) =
     (if k' = k then (k, v) # rest else (k', v') # cacheSet k v rest)"

text \<open>\<open>Map.prototype.delete\<close>.\<close>

definition cacheDelete :: "string \<Rightarrow> cache \<Rightarrow> cache" where
  "cacheDelete k c = filter (\<lambda>kv. fst kv \<noteq> k) c"

text \<open>The first step of \<open>updateCache\<close>: when the cache is full, delete
  \<open>this.cache.keys().next().value\<close> (on an empty map that is \<open>undefined\<close>, and the
  delete does nothing).\<close>

definition evictOldest :: "config \<Rightarrow> cache \<Rightarrow> cache" where
  "evictOldest cfg c =
     (if MAX_SIZE cfg \<le> length c
      then (case c of [] \<Rightarrow> c | (firstKey, _) # _ \<Rightarrow> cacheDelete firstKey c)
      else c)"

definition updateCache :: "config \<Rightarrow> string \<Rightarrow> element list \<Rightarrow> int \<Rightarrow> cache \<Rightarrow> cache" where
  "updateCache cfg key d now c =
     cacheSet key \<lparr>data = d, timestamp = now\<rparr> (evictOldest cfg c)"

definition clearCache :: "cache \<Rightarrow> cache" where
  "clearCache c = []"

definition getCacheInfo :: "cache \<Rightarrow> nat \<times> string list" where
  "getCacheInfo c = (length c, map fst c)"

text \<open>The cache check at the head of \<open>fetchProducts\<close>: the data of the entry under the key,
  when caching is enabled, the key is held and the entry is younger than \<open>EXPIRY_TIME\<close>.\<close>

definition cacheLookup :: "config \<Rightarrow> cache \<Rightarrow> int \<Rightarrow> string \<Rightarrow> element list option" where
  "cacheLookup cfg c now cacheKey =
     (if CACHE_ENABLED cfg then
        (case map_of c cacheKey of
           None \<Rightarrow> None
         | Some cached \<Rightarrow>
             if now - timestamp cached < EXPIRY_TIME cfg then Some (data cached) else None)
      else None)"


section \<open>The seeded shuffle\<close>

text \<open>
  JavaScript numbers are IEEE doubles, and every arithmetic operation rounds its exact result
  to the nearest double, ties to even. \<open>fl\<close> is that rounding, for a significand of 53 bits;
  the range of exponents is taken to be unbounded (no overflow and no subnormal numbers), and
  \<open>NaN\<close> and the infinities are not numbers of the model.
\<close>

definition roundEven :: "real \<Rightarrow> int" where
  "roundEven q =
     (let f = \<lfloor>q\<rfloor> in
      if q - of_int f < 1 / 2 then f
      else if 1 / 2 < q - of_int f then f + 1
      else if even f then f else f + 1)"

definition fl :: "real \<Rightarrow> real" where
  "fl x =
     (if x = 0 then 0
      else
        (let e = \<lfloor>log 2 \<bar>x\<bar>\<rfloor> - 52
         in of_int (roundEven (x / 2 powr of_int e)) * 2 powr of_int e))"

text \<open>\<open>Math.sin\<close>, taken to be correctly rounded.\<close>

definition mathSin :: "real \<Rightarrow> real" where
  "mathSin x = fl (sin x)"

text \<open>
  \<open>random()\<close> of \<open>seededShuffle\<close>, as a function of the value of \<open>currentSeed\<close> at the
  draw: \<open>x = Math.sin(currentSeed) * 10000; return x - Math.floor(x)\<close>. \<open>Math.floor\<close> is
  exact.
\<close>

definition random :: "real \<Rightarrow> real" where
  "random currentSeed =
     (let x = fl (mathSin currentSeed * 10000) in fl (x - of_int \<lfloor>x\<rfloor>))"

text \<open>Reading and writing a cell of an array: a read beyond the end gives \<open>undefined\<close>, a write
  beyond the end extends the array, the cells in between being \<open>undefined\<close>.\<close>

definition arrayGet :: "'a option list \<Rightarrow> nat \<Rightarrow> 'a option" where
  "arrayGet xs i = (if i < length xs then xs ! i else None)"

definition arraySet :: "'a option list \<Rightarrow> nat \<Rightarrow> 'a option \<Rightarrow> 'a option list" where
  "arraySet xs i v =
     (if i < length xs then xs[i := v] else xs @ replicate (i - length xs) None @ [v])"

text \<open>
  Arrays are objects in a store: an address is an index into the list of allocated arrays,
  and allocation appends. The loop \<open>for (let i = shuffled.length - 1; i > 0; i--)\<close> runs on
  the array at address \<open>shuffled\<close>; its last argument is \<open>i\<close>. The destructuring swap reads
  \<open>shuffled[j]\<close> and \<open>shuffled[i]\<close>, then writes \<open>shuffled[i]\<close>, then \<open>shuffled[j]\<close>. A draw
  is never negative (lemma \<open>random_nonneg\<close>), so neither is \<open>j\<close>; \<open>currentSeed++\<close> adds one
  and rounds. The factor \<open>i + 1\<close> is an integer below \<open>2 ^ 53\<close> (an array has fewer than
  \<open>2 ^ 32\<close> cells) and so is a double as it stands.
\<close>

type_synonym 'a store = "'a option list list"

fun shuffleLoop :: "'a store \<Rightarrow> nat \<Rightarrow> real \<Rightarrow> nat \<Rightarrow> 'a store" where
  "shuffleLoop h shuffled currentSeed 0 = h"
| "shuffleLoop h shuffled currentSeed (Suc n) =
     (let i = Suc n;
          j = nat \<lfloor>fl (random currentSeed * real (i + 1))\<rfloor>;
          arr = h ! shuffled;
          arr' = arraySet (arraySet arr i (arrayGet arr j)) j (arrayGet arr i)
      in shuffleLoop (h[shuffled := arr']) shuffled (fl (currentSeed + 1)) n)"

text \<open>\<open>seededShuffle(array, seed)\<close> on the store: \<open>[...array]\<close> allocates the copy, the
  loop permutes the copy, and the address of the copy is returned.\<close>

definition seededShuffleStore :: "'a store \<Rightarrow> nat \<Rightarrow> real \<Rightarrow> 'a store \<times> nat" where
  "seededShuffleStore h array seed =
     (let shuffled = length h;
          h1 = h @ [h ! array]
      in (shuffleLoop h1 shuffled seed (length (h1 ! shuffled) - 1), shuffled))"

text \<open>The same call seen from a caller that holds the array by value.\<close>

definition seededShuffle :: "'a option list \<Rightarrow> real \<Rightarrow> 'a option list" where
  "seededShuffle array seed =
     (case seededShuffleStore [array] 0 seed of (h, shuffled) \<Rightarrow> h ! shuffled)"

text \<open>
  The indices drawn by the loop stay within the part of the array not yet fixed: at each step,
  from \<open>i\<close> down to 1 and with the seed counted up as the loop does, the drawn \<open>j\<close> is at
  most \<open>i\<close>.
\<close>

fun drawsInRange :: "real \<Rightarrow> nat \<Rightarrow> bool" where
  "drawsInRange currentSeed 0 = True"
| "drawsInRange currentSeed (Suc n) =
     (nat \<lfloor>fl (random currentSeed * real (Suc n + 1))\<rfloor> \<le> Suc n \<and>
      drawsInRange (fl (currentSeed + 1)) n)"


section \<open>Fetching with timeout and retries\<close>

text \<open>
  The upstream is a function of the URL and of the time at which the request is issued.
  It answers with the time the \<open>fetch\<close> promise takes to settle and with what it settles to:
  a rejection, or a response with its status line, the time the body takes to arrive and the
  result of parsing the body as JSON.
\<close>

record response =
  status :: nat
  statusText :: string
  bodyLatency :: nat
  body :: "jserror + json"

datatype settlement = Rejects jserror | Resolves response

record attempt =
  latency :: nat
  settles :: settlement

type_synonym upstream = "string \<Rightarrow> int \<Rightarrow> attempt"

definition ok :: "response \<Rightarrow> bool" where
  "ok r = (200 \<le> status r \<and> status r \<le> 299)"

definition digitChar :: "nat \<Rightarrow> char" where
  "digitChar n = ''0123456789'' ! (n mod 10)"

fun stringOfNat :: "nat \<Rightarrow> string" where
  "stringOfNat n =
     (if n < 10 then [digitChar n]
      else stringOfNat (n div 10) @ [digitChar n])"

declare stringOfNat.simps [simp del]

definition abortError :: jserror where
  "abortError = JSError ''AbortError'' ''signal is aborted without reason''"

definition httpError :: "response \<Rightarrow> jserror" where
  "httpError r = JSError ''Error'' (''HTTP '' @ stringOfNat (status r) @ '': '' @ statusText r)"

text \<open>
  The \<open>try\<close> block of \<open>fetchWithRetry\<close>, issued at time \<open>t\<close>: the value or the error it ends
  with, and the time at which it ends. The abort timer fires \<open>TIMEOUT\<close> after the request
  unless the \<open>fetch\<close> promise has settled before; it is cleared once the response is there,
  so the body is read without a deadline.
\<close>

definition attemptOnce :: "config \<Rightarrow> upstream \<Rightarrow> string \<Rightarrow> int \<Rightarrow> (jserror + json) \<times> int" where
  "attemptOnce cfg up url t =
     (let a = up url t in
      if TIMEOUT cfg \<le> latency a then (Inl abortError, t + int (TIMEOUT cfg))
      else
        (case settles a of
           Rejects error \<Rightarrow> (Inl error, t + int (latency a))
         | Resolves r \<Rightarrow>
             if \<not> ok r then (Inl (httpError r), t + int (latency a))
             else (body r, t + int (latency a) + int (bodyLatency r))))"

text \<open>What the service does to the outside, each with the time at which it starts.\<close>

datatype event = Request string | Delay nat

type_synonym log = "(int \<times> event) list"

function fetchWithRetry ::
  "config \<Rightarrow> upstream \<Rightarrow> string \<Rightarrow> nat \<Rightarrow> int \<Rightarrow> (jserror + json) \<times> int \<times> log" where
  "fetchWithRetry cfg up url retryCount t =
     (let r = attemptOnce cfg up url t in
      if isl (fst r) then
        if retryCount < RETRY_COUNT cfg then
          let ms = RETRY_DELAY cfg * (retryCount + 1);
              rest = fetchWithRetry cfg up url (retryCount + 1) (snd r + int ms)
          in (fst rest, fst (snd rest), (t, Request url) # (snd r, Delay ms) # snd (snd rest))
        else (fst r, snd r, [(t, Request url)])
      else (fst r, snd r, [(t, Request url)]))"
  by pat_completeness auto
termination
  by (relation "measure (\<lambda>(cfg, up, url, retryCount, t). RETRY_COUNT cfg - retryCount)") auto

declare fetchWithRetry.simps [simp del]


section \<open>\<open>fetchProducts\<close> and the Hot aggregation\<close>

text \<open>\<open>encodeURIComponent\<close> on a string of UTF-8 bytes: every byte outside the unreserved
  characters becomes \<open>%XX\<close>.\<close>

definition unreserved :: "char \<Rightarrow> bool" where
  "unreserved c =
     (c \<in> set (''ABCDEFGHIJKLMNOPQRSTUVWXYZabcdefghijklmnopqrstuvwxyz0123456789-_.!~*()''
              @ [CHR 0x27]))"

definition hexDigit :: "nat \<Rightarrow> char" where
  "hexDigit n = ''0123456789ABCDEF'' ! (n mod 16)"

definition encodeURIComponent :: "string \<Rightarrow> string" where
  "encodeURIComponent s =
     concat (map (\<lambda>c. if unreserved c then [c]
                      else [CHR ''%'', hexDigit (of_char c div 16), hexDigit (of_char c)]) s)"

definition apiUrl :: "config \<Rightarrow> string \<Rightarrow> string" where
  "apiUrl cfg endpoint =
     (case getCategoryUrl cfg of
        Some f \<Rightarrow> f endpoint
      | None \<Rightarrow> BASE_URL cfg @ ''/'' @ encodeURIComponent endpoint)"

text \<open>
  A call of \<open>fetchProducts\<close> reads the cache when it is made and writes it when it ends;
  calls that run concurrently (the sub-fetches of the Hot aggregation) all read the cache as
  it was when they were started. So a call maps the cache and the time of the call to: the
  value it resolves to or the error it rejects with, the time at which it settles, the events
  it caused, and the \<open>updateCache\<close> calls it made, each with its time.
\<close>

type_synonym cache_write = "int \<times> string \<times> element list"

type_synonym outcome = "(jserror + element list) \<times> int \<times> log \<times> cache_write list"

text \<open>The part of \<open>fetchProducts\<close> for a category of its own, after the cache check. The
  records that pass the filter are the elements of the array that is cached and returned.\<close>

definition fetchDirect :: "config \<Rightarrow> upstream \<Rightarrow> int \<Rightarrow> string \<Rightarrow> outcome" where
  "fetchDirect cfg up now endpoint =
     (case fetchWithRetry cfg up (apiUrl cfg endpoint) 0 now of
        (Inl error, t, l) \<Rightarrow> (Inl (handleError cfg error), t, l, [])
      | (Inr parsed, t, l) \<Rightarrow>
          (case validProducts parsed of
             Inl error \<Rightarrow> (Inl (handleError cfg error), t, l, [])
           | Inr valid \<Rightarrow>
               (Inr (map Some valid), t, l,
                if CACHE_ENABLED cfg then [(t, endpoint, map Some valid)] else [])))"

text \<open>\<open>.catch(err => [])\<close> on a settled sub-fetch.\<close>

definition catchEmpty :: "outcome \<Rightarrow> element list" where
  "catchEmpty r = (case fst r of Inl err \<Rightarrow> [] | Inr products \<Rightarrow> products)"

text \<open>
  A category that is not named Hot may still have the endpoint Hot; then the aggregation
  calls itself. The first argument bounds the depth of that nesting, and \<open>None\<close> stands for
  a call that does not return within it.
\<close>

fun fetchProducts ::
      "nat \<Rightarrow> config \<Rightarrow> upstream \<Rightarrow> cache \<Rightarrow> int \<Rightarrow> string \<Rightarrow> outcome option"
  and fetchHotProducts ::
      "nat \<Rightarrow> config \<Rightarrow> upstream \<Rightarrow> cache \<Rightarrow> int \<Rightarrow> outcome option" where
  "fetchProducts fuel cfg up c now endpoint =
     (case cacheLookup cfg c now endpoint of
        Some cached \<Rightarrow> Some (Inr cached, now, [], [])
      | None \<Rightarrow>
          if endpoint = ''Hot'' then
            (case fetchHotProducts fuel cfg up c now of
               None \<Rightarrow> None
             | Some (Inr hotData, t, l, ws) \<Rightarrow>
                 Some (Inr hotData, t, l,
                       ws @ (if CACHE_ENABLED cfg then [(t, endpoint, hotData)] else []))
             | Some (Inl error, t, l, ws) \<Rightarrow> Some (Inl (handleError cfg error), t, l, ws))
          else Some (fetchDirect cfg up now endpoint))"
| "fetchHotProducts 0 cfg up c now = None"
| "fetchHotProducts (Suc fuel) cfg up c now =
     (let seed = now div 259200000;
          otherCategories = map catEndpoint (filter (\<lambda>c. catName c \<noteq> ''Hot'') (categories cfg))
      in if otherCategories = [] then Some (Inr [], now, [], [])
         else
           (case those (map (\<lambda>endpoint. fetchProducts fuel cfg up c now endpoint)
                            otherCategories) of
              None \<Rightarrow> None
            | Some settled \<Rightarrow>
                let results = map catchEmpty settled;
                    allProducts = concat results
                in Some (Inr (seededShuffle allProducts (real_of_int seed)),
                         fold max (map (\<lambda>r. fst (snd r)) settled) now,
                         concat (map (\<lambda>r. fst (snd (snd r))) settled),
                         concat (map (\<lambda>r. snd (snd (snd r))) settled))))"

declare fetchProducts.simps [simp del]
declare fetchHotProducts.simps [simp del]

text \<open>The state of the service between calls: the cache and the clock. The writes of a call
  reach the cache in the order of their times.\<close>

definition commit :: "config \<Rightarrow> cache_write list \<Rightarrow> cache \<Rightarrow> cache" where
  "commit cfg ws c = foldl (\<lambda>c (t, key, d). updateCache cfg key d t c) c (sort_key fst ws)"

definition callFetchProducts ::
  "nat \<Rightarrow> config \<Rightarrow> upstream \<Rightarrow> cache \<times> int \<Rightarrow> string
     \<Rightarrow> ((jserror + element list) \<times> (cache \<times> int) \<times> log) option" where
  "callFetchProducts fuel cfg up s endpoint =
     (case fetchProducts fuel cfg up (fst s) (snd s) endpoint of
        None \<Rightarrow> None
      | Some (r, t, l, ws) \<Rightarrow> Some (r, (commit cfg ws (fst s), t), l))"


section \<open>Sequences of cache operations\<close>

text \<open>
  The service touches the cache in two ways: \<open>updateCache\<close> (a put) and the read at the head
  of \<open>fetchProducts\<close> (\<open>has\<close> and \<open>get\<close>, which leave the map as it is).
\<close>

datatype cache_op = Put string "element list" int | Hit string

fun applyOp :: "config \<Rightarrow> cache_op \<Rightarrow> cache \<Rightarrow> cache" where
  "applyOp cfg (Put key d now) c = updateCache cfg key d now c"
| "applyOp cfg (Hit key) c = c"

fun runOps :: "config \<Rightarrow> cache_op list \<Rightarrow> cache \<Rightarrow> cache" where
  "runOps cfg [] c = c"
| "runOps cfg (op # ops) c = runOps cfg ops (applyOp cfg op c)"

text \<open>
  When each held key was inserted: \<open>insertedAt cfg ops n c b\<close> follows the operations \<open>ops\<close>,
  numbered from \<open>n\<close>, from the cache \<open>c\<close>, and updates the table \<open>b\<close> of insertion numbers. A
  put of a key that is still held after the eviction step overwrites the entry and keeps its
  number; a put of a key that is not held then inserts it, with the number of the put. A read
  changes nothing.
\<close>

fun insertedAt ::
  "config \<Rightarrow> cache_op list \<Rightarrow> nat \<Rightarrow> cache \<Rightarrow> (string \<Rightarrow> nat) \<Rightarrow> (string \<Rightarrow> nat)" where
  "insertedAt cfg [] n c b = b"
| "insertedAt cfg (Hit key # ops) n c b = insertedAt cfg ops (Suc n) c b"
| "insertedAt cfg (Put key d now # ops) n c b =
     insertedAt cfg ops (Suc n) (updateCache cfg key d now c)
       (if key \<in> set (map fst (evictOldest cfg c)) then b else b(key := n))"

text \<open>The invariant of the cache and of the table of insertion numbers after \<open>n\<close>
  operations: keys are distinct, at most \<open>MAX_SIZE\<close> are held, and along the iteration order
  of the map the insertion numbers increase.\<close>

definition cacheInv :: "config \<Rightarrow> nat \<Rightarrow> cache \<Rightarrow> (string \<Rightarrow> nat) \<Rightarrow> bool" where
  "cacheInv cfg n c b =
     (distinct (map fst c) \<and> length c \<le> MAX_SIZE cfg \<and>
      sorted_wrt (<) (map b (map fst c)) \<and> (\<forall>k \<in> set (map fst c). b k < n))"



section \<open>Vocabulary for the statements\<close>

text \<open>The endpoints the Hot aggregation fans out to, the outcomes of its sub-fetches, and
  the list it hands to the shuffle, as they appear in \<open>fetchHotProducts\<close>.\<close>

definition otherEndpoints :: "config \<Rightarrow> string list" where
  "otherEndpoints cfg = map catEndpoint (filter (\<lambda>c. catName c \<noteq> ''Hot'') (categories cfg))"

definition subFetches ::
  "nat \<Rightarrow> config \<Rightarrow> upstream \<Rightarrow> cache \<Rightarrow> int \<Rightarrow> outcome option list" where
  "subFetches fuel cfg up c now =
     map (\<lambda>endpoint. fetchProducts fuel cfg up c now endpoint) (otherEndpoints cfg)"

definition allProducts :: "outcome list \<Rightarrow> element list" where
  "allProducts settled = concat (map catchEmpty settled)"

fun isRequest :: "event \<Rightarrow> bool" where
  "isRequest (Request url) = True"
| "isRequest (Delay ms) = False"

text \<open>The pattern of events of a call of \<open>fetchWithRetry\<close> whose attempts all fail, from the
  attempt numbered \<open>k\<close> on: a request, and before each retry the backoff delay.\<close>

definition retryPattern :: "config \<Rightarrow> string \<Rightarrow> nat \<Rightarrow> event list" where
  "retryPattern cfg url k =
     concat (map (\<lambda>j. [Request url, Delay (RETRY_DELAY cfg * (j + 1))]) [k..<RETRY_COUNT cfg])
       @ [Request url]"


text \<open>
  The validity of a record by the words of the specification: it has a non-empty value under
  at least one alias of each required field. A value is taken to be empty when it is absent,
  \<open>null\<close>, \<open>false\<close>, \<open>0\<close>, the empty string, an array without elements or an object without
  properties.
\<close>

fun nonEmptyValue :: "json \<Rightarrow> bool" where
  "nonEmptyValue JNull = False"
| "nonEmptyValue (JBool b) = b"
| "nonEmptyValue (JNum x) = (x \<noteq> 0)"
| "nonEmptyValue (JStr s) = (s \<noteq> [])"
| "nonEmptyValue (JArr xs) = (xs \<noteq> [])"
| "nonEmptyValue (JObj kvs) = (kvs \<noteq> [])"

definition hasNonEmpty :: "json \<Rightarrow> string \<Rightarrow> bool" where
  "hasNonEmpty product f =
     (case getProp product f of None \<Rightarrow> False | Some v \<Rightarrow> nonEmptyValue v)"

definition specValid :: "json \<Rightarrow> bool" where
  "specValid product =
     ((hasNonEmpty product ''title_clean'' \<or> hasNonEmpty product ''spbt'') \<and>
      (hasNonEmpty product ''media_urls'' \<or> hasNonEmpty product ''ztURL'') \<and>
      (hasNonEmpty product ''converted_link'' \<or> hasNonEmpty product ''spURL''))"


section \<open>Example inputs\<close>

text \<open>The configuration of the end-to-end example of the specification, with three categories,
  and some upstreams.\<close>

definition exampleConfig :: config where
  "exampleConfig =
     \<lparr>BASE_URL = ''https://api.example'', getCategoryUrl = None,
      TIMEOUT = 500, RETRY_COUNT = 2, RETRY_DELAY = 100,
      CACHE_ENABLED = True, EXPIRY_TIME = 300000, MAX_SIZE = 2,
      categories =
        [\<lparr>catName = ''Hot'', catEndpoint = ''Hot''\<rparr>,
         \<lparr>catName = ''Shoes'', catEndpoint = ''Shoes''\<rparr>,
         \<lparr>catName = ''Bags'', catEndpoint = ''Bags''\<rparr>],
      TIMEOUT_ERROR = ''Request timed out'',
      NETWORK_ERROR = ''Network error'',
      LOADING_ERROR = ''Failed to load products''\<rparr>"

definition serverError :: attempt where
  "serverError =
     \<lparr>latency = 20,
      settles = Resolves \<lparr>status = 500, statusText = ''Internal Server Error'',
                          bodyLatency = 0, body = Inr JNull\<rparr>\<rparr>"

definition recordA :: json where
  "recordA = JObj [(''title_clean'', JStr ''A''), (''media_urls'', JStr ''u''),
                   (''converted_link'', JStr ''l'')]"

definition recordB :: json where
  "recordB = JObj [(''spbt'', JStr ''B'')]"

definition shoesBody :: attempt where
  "shoesBody =
     \<lparr>latency = 20,
      settles = Resolves \<lparr>status = 200, statusText = ''OK'',
                          bodyLatency = 5, body = Inr (JArr [recordA, recordB])\<rparr>\<rparr>"

text \<open>Every request fails with status 500.\<close>

definition alwaysDown :: upstream where
  "alwaysDown url t = serverError"

text \<open>The feed of Shoes answers, every other URL fails with status 500.\<close>

definition shoesUp :: upstream where
  "shoesUp url t = (if url = ''https://api.example/Shoes'' then shoesBody else serverError)"

text \<open>The feed of Shoes fails until time 200 and answers from then on.\<close>

definition shoesLate :: upstream where
  "shoesLate url t =
     (if url = ''https://api.example/Shoes'' \<and> 200 \<le> t then shoesBody else serverError)"

definition recordC :: json where
  "recordC = JObj [(''title_clean'', JStr ''C''), (''media_urls'', JArr []),
                   (''converted_link'', JStr ''l'')]"


text \<open>A \<open>fetch\<close> that cannot reach the server, with the message of an engine that is not
  Chromium, and a response with status 503 whose reason phrase is \<open>Failed to fetch\<close>.\<close>

definition loadFailed :: attempt where
  "loadFailed = \<lparr>latency = 20, settles = Rejects (JSError ''TypeError'' ''Load failed'')\<rparr>"

definition unavailable :: attempt where
  "unavailable =
     \<lparr>latency = 20,
      settles = Resolves \<lparr>status = 503, statusText = ''Failed to fetch'',
                          bodyLatency = 0, body = Inr JNull\<rparr>\<rparr>"

definition unreachable :: upstream where
  "unreachable url t = loadFailed"

definition busyServer :: upstream where
  "busyServer url t = unavailable"

section \<open>The validation step\<close>

text \<open>
  \<^bold>\<open>C4\<close>, as stated, fails: a record whose only media reference is an empty array has no
  non-empty value under either alias of that field, and the validation step keeps it, since
  in JavaScript every array is truthy.
\<close>

theorem validProducts_keeps_empty_array:
  "validProducts (JArr [recordC]) = Inr [recordC] \<and> \<not> specValid recordC \<and>
   getProp recordC ''media_urls'' = Some (JArr []) \<and> getProp recordC ''ztURL'' = None"
  by (simp add: validProducts_def isValid_def present_def specValid_def hasNonEmpty_def
      recordC_def)

text \<open>
  \<^bold>\<open>C4\<close>, amended. For every list of raw upstream records, none of them \<open>null\<close>, the
  validation step outputs exactly those input records, in input order and unchanged, that
  have a truthy value (in the sense of JavaScript: present and not \<open>null\<close>, \<open>false\<close>, \<open>0\<close> or
  the empty string; an array or an object is truthy also when it is empty) under at least one
  accepted alias of each of the three required fields. The output is a subsequence of the
  input.
\<close>

theorem validProducts_keeps_truthy_records:
  assumes "JNull \<notin> set records"
  shows "validProducts (JArr records) = Inr (filter isValid records) \<and>
         subseq (filter isValid records) records \<and>
         (\<forall>r. r \<in> set (filter isValid records) \<longleftrightarrow> r \<in> set records \<and> isValid r) \<and>
         (\<forall>r. isValid r \<longleftrightarrow>
              (present r ''title_clean'' \<or> present r ''spbt'') \<and>
              (present r ''media_urls'' \<or> present r ''ztURL'') \<and>
              (present r ''converted_link'' \<or> present r ''spURL'')) \<and>
         (\<forall>r f. present r f \<longleftrightarrow> (\<exists>v. getProp r f = Some v \<and> truthy v))"
proof -
  have "present r f \<longleftrightarrow> (\<exists>v. getProp r f = Some v \<and> truthy v)" for r f
    by (simp add: present_def split: option.splits)
  then show ?thesis
    using assms by (simp add: validProducts_def isValid_def)
qed

theorem validProducts_keeps_truthy_records_witness:
  "JNull \<notin> set [recordA, recordB, recordC] \<and>
   validProducts (JArr [recordA, recordB, recordC]) = Inr [recordA, recordC] \<and>
   subseq [recordA, recordC] [recordA, recordB, recordC]"
proof -
  have h: "JNull \<notin> set [recordA, recordB, recordC]"
    by (simp add: recordA_def recordB_def recordC_def)
  have f: "filter isValid [recordA, recordB, recordC] = [recordA, recordC]"
    by (simp add: isValid_def present_def recordA_def recordB_def recordC_def)
  show ?thesis
    using h validProducts_keeps_truthy_records[OF h] unfolding f by simp
qed

lemma value_validProducts: "validProducts (JArr [recordA, recordB]) = Inr [recordA]"
  by (simp add: validProducts_def isValid_def present_def recordA_def recordB_def)


section \<open>Error classification\<close>

lemma handleError_kind: "handleError cfg error = JSError ''Error'' (kindMessage cfg (classify error))"
  by (simp add: handleError_def classify_def)

lemma startsWith_iff: "startsWith s sub \<longleftrightarrow> (\<exists>post. s = sub @ post)"
  by (induction s sub rule: startsWith.induct) auto

lemma stringIncludes_iff: "stringIncludes s sub \<longleftrightarrow> (\<exists>pre post. s = pre @ sub @ post)"
proof (induction s)
  case Nil
  then show ?case by simp
next
  case (Cons c cs)
  show ?case
  proof
    assume "stringIncludes (c # cs) sub"
    then consider "startsWith (c # cs) sub" | "stringIncludes cs sub" by auto
    then show "\<exists>pre post. c # cs = pre @ sub @ post"
    proof cases
      case 1
      then obtain post where "c # cs = [] @ sub @ post" by (auto simp: startsWith_iff)
      then show ?thesis by blast
    next
      case 2
      with Cons.IH obtain pre post where "cs = pre @ sub @ post" by blast
      then have "c # cs = (c # pre) @ sub @ post" by simp
      then show ?thesis by blast
    qed
  next
    assume "\<exists>pre post. c # cs = pre @ sub @ post"
    then obtain pre post where e: "c # cs = pre @ sub @ post" by blast
    show "stringIncludes (c # cs) sub"
    proof (cases pre)
      case Nil
      with e have "startsWith (c # cs) sub" by (auto simp: startsWith_iff)
      then show ?thesis by simp
    next
      case (Cons d pre')
      with e have "cs = pre' @ sub @ post" by simp
      with Cons.IH have "stringIncludes cs sub" by blast
      then show ?thesis by simp
    qed
  qed
qed

lemma value_stringOfNat_503: "stringOfNat 503 = ''503''"
  by (simp add: stringOfNat.simps digitChar_def)

text \<open>
  \<^bold>\<open>C9\<close>, as stated, fails: the kind follows the name and the message of the failure, not
  its cause. A \<open>fetch\<close> that cannot reach the server and rejects with the message
  \<open>Load failed\<close> is classified as a loading error, not a network error; a response with
  status 503 and the reason phrase \<open>Failed to fetch\<close> is classified as a network error, not
  a loading error.
\<close>

theorem handleError_kind_not_cause:
  "attemptOnce exampleConfig unreachable ''https://api.example/Bags'' 0
     = (Inl (JSError ''TypeError'' ''Load failed''), 20) \<and>
   handleError exampleConfig (JSError ''TypeError'' ''Load failed'')
     = JSError ''Error'' (LOADING_ERROR exampleConfig) \<and>
   handleError exampleConfig (JSError ''TypeError'' ''Load failed'')
     \<noteq> JSError ''Error'' (NETWORK_ERROR exampleConfig) \<and>
   attemptOnce exampleConfig busyServer ''https://api.example/Bags'' 0
     = (Inl (JSError ''Error'' ''HTTP 503: Failed to fetch''), 20) \<and>
   handleError exampleConfig (JSError ''Error'' ''HTTP 503: Failed to fetch'')
     = JSError ''Error'' (NETWORK_ERROR exampleConfig) \<and>
   handleError exampleConfig (JSError ''Error'' ''HTTP 503: Failed to fetch'')
     \<noteq> JSError ''Error'' (LOADING_ERROR exampleConfig)"
proof -
  have m: "NETWORK_ERROR exampleConfig \<noteq> LOADING_ERROR exampleConfig"
    "TIMEOUT exampleConfig = 500"
    by (simp_all add: exampleConfig_def)
  have a: "attemptOnce exampleConfig unreachable ''https://api.example/Bags'' 0
     = (Inl (JSError ''TypeError'' ''Load failed''), 20)"
    by (simp add: attemptOnce_def unreachable_def loadFailed_def m)
  have b: "attemptOnce exampleConfig busyServer ''https://api.example/Bags'' 0
     = (Inl (JSError ''Error'' ''HTTP 503: Failed to fetch''), 20)"
    by (simp add: attemptOnce_def busyServer_def unavailable_def m ok_def httpError_def
        value_stringOfNat_503)
  show ?thesis
    using m(1) by (simp add: a b handleError_def)
qed

text \<open>
  \<^bold>\<open>C9\<close>, amended. \<open>handleError\<close> maps every failure to exactly one of three results, by
  checks in a fixed order: a failure named \<open>AbortError\<close> gives the timeout message, whatever
  its message; otherwise a failure whose message includes \<open>Failed to fetch\<close> (as a
  contiguous substring) gives the network message; every other failure gives the loading
  message. The result is a plain \<open>Error\<close> that carries one of the three configured messages
  and nothing else of the failure: two failures on which the two checks agree give the same
  result. The abort of the timeout is named \<open>AbortError\<close>, so an attempt that times out gives
  the timeout message.
\<close>

theorem handleError_three_checks:
  "(name error = ''AbortError'' \<longrightarrow>
      handleError cfg error = JSError ''Error'' (TIMEOUT_ERROR cfg)) \<and>
   (name error \<noteq> ''AbortError'' \<and> stringIncludes (message error) ''Failed to fetch'' \<longrightarrow>
      handleError cfg error = JSError ''Error'' (NETWORK_ERROR cfg)) \<and>
   (name error \<noteq> ''AbortError'' \<and> \<not> stringIncludes (message error) ''Failed to fetch'' \<longrightarrow>
      handleError cfg error = JSError ''Error'' (LOADING_ERROR cfg)) \<and>
   (stringIncludes (message error) ''Failed to fetch'' \<longleftrightarrow>
      (\<exists>pre post. message error = pre @ ''Failed to fetch'' @ post)) \<and>
   name (handleError cfg error) = ''Error'' \<and>
   message (handleError cfg error) \<in> {TIMEOUT_ERROR cfg, NETWORK_ERROR cfg, LOADING_ERROR cfg} \<and>
   (\<forall>error'.
      (name error' = ''AbortError'') = (name error = ''AbortError'') \<and>
      stringIncludes (message error') ''Failed to fetch''
        = stringIncludes (message error) ''Failed to fetch'' \<longrightarrow>
      handleError cfg error' = handleError cfg error) \<and>
   (TIMEOUT cfg \<le> latency (up url t) \<longrightarrow>
      fst (attemptOnce cfg up url t) = Inl abortError \<and>
      handleError cfg abortError = JSError ''Error'' (TIMEOUT_ERROR cfg))"
proof -
  have 1: "name error = ''AbortError'' \<longrightarrow>
      handleError cfg error = JSError ''Error'' (TIMEOUT_ERROR cfg)"
    by (simp add: handleError_def)
  have 2: "name error \<noteq> ''AbortError'' \<and> stringIncludes (message error) ''Failed to fetch'' \<longrightarrow>
      handleError cfg error = JSError ''Error'' (NETWORK_ERROR cfg)"
    by (simp add: handleError_def)
  have 3: "name error \<noteq> ''AbortError'' \<and> \<not> stringIncludes (message error) ''Failed to fetch'' \<longrightarrow>
      handleError cfg error = JSError ''Error'' (LOADING_ERROR cfg)"
    by (simp add: handleError_def)
  have 4: "stringIncludes (message error) ''Failed to fetch'' \<longleftrightarrow>
      (\<exists>pre post. message error = pre @ ''Failed to fetch'' @ post)"
    by (rule stringIncludes_iff)
  have 5: "name (handleError cfg error) = ''Error''"
    by (simp add: handleError_def)
  have 6: "message (handleError cfg error) \<in> {TIMEOUT_ERROR cfg, NETWORK_ERROR cfg, LOADING_ERROR cfg}"
    by (simp add: handleError_def)
  have 7: "\<forall>error'.
      (name error' = ''AbortError'') = (name error = ''AbortError'') \<and>
      stringIncludes (message error') ''Failed to fetch''
        = stringIncludes (message error) ''Failed to fetch'' \<longrightarrow>
      handleError cfg error' = handleError cfg error"
    by (simp add: handleError_def)
  have 8: "TIMEOUT cfg \<le> latency (up url t) \<longrightarrow>
      fst (attemptOnce cfg up url t) = Inl abortError \<and>
      handleError cfg abortError = JSError ''Error'' (TIMEOUT_ERROR cfg)"
    by (simp add: attemptOnce_def handleError_def abortError_def)
  show ?thesis by (intro conjI 1 2 3 4 5 6 7 8)
qed

theorem handleError_three_checks_witness:
  "handleError exampleConfig (JSError ''AbortError'' ''Failed to fetch'') = JSError ''Error'' ''Request timed out'' \<and>
   handleError exampleConfig (JSError ''TypeError'' ''Failed to fetch'') = JSError ''Error'' ''Network error'' \<and>
   handleError exampleConfig (JSError ''SyntaxError'' ''Unexpected token'') = JSError ''Error'' ''Failed to load products'' \<and>
   handleError exampleConfig (JSError ''TypeError'' ''Load failed'')
     = handleError exampleConfig (JSError ''SyntaxError'' ''Unexpected token'')"
proof -
  have m: "TIMEOUT_ERROR exampleConfig = ''Request timed out''"
    "NETWORK_ERROR exampleConfig = ''Network error''"
    "LOADING_ERROR exampleConfig = ''Failed to load products''"
    by (simp_all add: exampleConfig_def)
  have 1: "handleError exampleConfig (JSError ''AbortError'' ''Failed to fetch'')
             = JSError ''Error'' ''Request timed out''"
    using handleError_three_checks[of "JSError ''AbortError'' ''Failed to fetch''" exampleConfig]
    unfolding m by simp
  have 2: "handleError exampleConfig (JSError ''TypeError'' ''Failed to fetch'')
             = JSError ''Error'' ''Network error''"
    using handleError_three_checks[of "JSError ''TypeError'' ''Failed to fetch''" exampleConfig]
    unfolding m by simp
  have 3: "handleError exampleConfig (JSError ''SyntaxError'' ''Unexpected token'')
             = JSError ''Error'' ''Failed to load products''"
    using handleError_three_checks[of "JSError ''SyntaxError'' ''Unexpected token''" exampleConfig]
    unfolding m by simp
  have 4: "handleError exampleConfig (JSError ''TypeError'' ''Load failed'')
     = handleError exampleConfig (JSError ''SyntaxError'' ''Unexpected token'')"
    using handleError_three_checks[of "JSError ''SyntaxError'' ''Unexpected token''" exampleConfig]
    by simp
  from 1 2 3 4 show ?thesis by blast
qed

section \<open>The cache\<close>

lemma keys_cacheSet:
  "map fst (cacheSet k v c) = (if k \<in> set (map fst c) then map fst c else map fst c @ [k])"
  by (induction c) force+

lemma length_cacheSet:
  "length (cacheSet k v c) = (if k \<in> set (map fst c) then length c else Suc (length c))"
  by (induction c) force+

lemma cacheSet_absent: "k \<notin> set (map fst c) \<Longrightarrow> cacheSet k v c = c @ [(k, v)]"
  by (induction c) auto

lemma cacheDelete_first:
  "distinct (map fst (kv # rest)) \<Longrightarrow> cacheDelete (fst kv) (kv # rest) = rest"
  by (auto simp: cacheDelete_def filter_id_conv rev_image_eqI)

lemma evictOldest_distinct:
  "distinct (map fst c) \<Longrightarrow> evictOldest cfg c = (if MAX_SIZE cfg \<le> length c then tl c else c)"
  using cacheDelete_first by (cases c) (auto simp: evictOldest_def simp del: distinct.simps)

lemma length_evictOldest:
  "distinct (map fst c) \<Longrightarrow> 0 < MAX_SIZE cfg \<Longrightarrow> length c \<le> MAX_SIZE cfg \<Longrightarrow> length (evictOldest cfg c) < MAX_SIZE cfg"
  by (cases c) (auto simp: evictOldest_distinct)

lemma keys_cacheDelete: "map fst (cacheDelete k c) = filter (\<lambda>k'. k' \<noteq> k) (map fst c)"
  by (simp add: cacheDelete_def filter_map comp_def)

lemma keys_evictOldest:
  "map fst (evictOldest cfg c) =
     (if MAX_SIZE cfg \<le> length (map fst c)
      then (case map fst c of [] \<Rightarrow> [] | firstKey # _ \<Rightarrow> filter (\<lambda>k'. k' \<noteq> firstKey) (map fst c))
      else map fst c)"
  by (cases c) (auto simp: evictOldest_def keys_cacheDelete)

lemma keys_evictOldest_subset: "set (map fst (evictOldest cfg c)) \<subseteq> set (map fst c)"
  by (auto simp: keys_evictOldest split: list.splits)

lemma keys_updateCache_timeless:
  "map fst c' = map fst c \<Longrightarrow>
     map fst (updateCache cfg key d t c') = map fst (updateCache cfg key d' t' c)"
proof -
  assume k: "map fst c' = map fst c"
  have e: "map fst (evictOldest cfg c') = map fst (evictOldest cfg c)"
    by (simp only: keys_evictOldest k)
  show ?thesis
    by (simp only: updateCache_def keys_cacheSet e)
qed

text \<open>
  \<^bold>\<open>C10.\<close> In a cache that holds exactly \<open>MAX_SIZE\<close> entries, a put under a key that is
  already held still deletes the first entry of the map before it stores. When the first entry
  has another key, that entry is lost, the put overwrites in place and \<open>MAX_SIZE - 1\<close> entries
  remain. When the first entry is the one under the put key, it is deleted and inserted anew
  at the end of the map, the newest position, and \<open>MAX_SIZE\<close> entries remain.
\<close>

theorem updateCache_existing_key_at_capacity:
  assumes "distinct (map fst c)" and "length c = MAX_SIZE cfg" and "key \<in> set (map fst c)"
  shows "\<exists>first rest. c = first # rest \<and> evictOldest cfg c = rest \<and>
           (fst first \<noteq> key \<longrightarrow>
              updateCache cfg key d now c = cacheSet key \<lparr>data = d, timestamp = now\<rparr> rest \<and>
              map fst (updateCache cfg key d now c) = map fst rest \<and>
              key \<in> set (map fst rest) \<and>
              fst first \<notin> set (map fst (updateCache cfg key d now c)) \<and>
              length (updateCache cfg key d now c) = MAX_SIZE cfg - 1) \<and>
           (fst first = key \<longrightarrow>
              updateCache cfg key d now c = rest @ [(key, \<lparr>data = d, timestamp = now\<rparr>)] \<and>
              length (updateCache cfg key d now c) = MAX_SIZE cfg)"
proof (cases c)
  case Nil
  with assms(3) show ?thesis by simp
next
  case (Cons first rest)
  have ev: "evictOldest cfg c = rest"
    using assms(1,2) Cons by (simp add: evictOldest_distinct)
  have d: "fst first \<notin> set (map fst rest)" "distinct (map fst rest)"
    using assms(1) Cons by auto
  show ?thesis
  proof (cases "fst first = key")
    case True
    then have "key \<notin> set (map fst rest)" using d by simp
    then show ?thesis
      using Cons ev True assms(2) by (auto simp: updateCache_def cacheSet_absent)
  next
    case False
    then have k: "key \<in> set (map fst rest)" using assms(3) Cons by auto
    then show ?thesis
      using Cons ev False assms(2) d
      by (auto simp: updateCache_def keys_cacheSet length_cacheSet)
  qed
qed

theorem updateCache_existing_key_at_capacity_witness:
  "(distinct (map fst [(''Shoes'', \<lparr>data = [], timestamp = 1\<rparr>), (''Bags'', \<lparr>data = [], timestamp = 2\<rparr>)]) \<and>
    length [(''Shoes'', \<lparr>data = [], timestamp = 1\<rparr>), (''Bags'', \<lparr>data = [], timestamp = 2\<rparr>)]
      = MAX_SIZE exampleConfig \<and>
    ''Bags'' \<in> set (map fst [(''Shoes'', \<lparr>data = [], timestamp = 1\<rparr>), (''Bags'', \<lparr>data = [], timestamp = 2\<rparr>)])) \<and>
   updateCache exampleConfig ''Bags'' [Some recordA] 7
     [(''Shoes'', \<lparr>data = [], timestamp = 1\<rparr>), (''Bags'', \<lparr>data = [], timestamp = 2\<rparr>)]
     = [(''Bags'', \<lparr>data = [Some recordA], timestamp = 7\<rparr>)]"
proof -
  let ?c = "[(''Shoes'', \<lparr>data = [], timestamp = 1\<rparr>), (''Bags'', \<lparr>data = [], timestamp = 2\<rparr>)]"
  have h1: "distinct (map fst ?c)" by simp
  have h2: "length ?c = MAX_SIZE exampleConfig" by (simp add: exampleConfig_def)
  have h3: "''Bags'' \<in> set (map fst ?c)" by simp
  from updateCache_existing_key_at_capacity[OF h1 h2 h3, of "[Some recordA]" 7]
  have "updateCache exampleConfig ''Bags'' [Some recordA] 7 ?c
          = cacheSet ''Bags'' \<lparr>data = [Some recordA], timestamp = 7\<rparr> [(''Bags'', \<lparr>data = [], timestamp = 2\<rparr>)]"
    by auto
  then show ?thesis using h1 h2 h3 by simp
qed

lemma cacheInv_tl: "cacheInv cfg n c b \<Longrightarrow> cacheInv cfg n (tl c) b"
  by (cases c) (auto simp: cacheInv_def)

lemma cacheInv_put:
  assumes "0 < MAX_SIZE cfg" and "cacheInv cfg n c b"
  shows "cacheInv cfg (Suc n) (updateCache cfg key d now c)
           (if key \<in> set (map fst (evictOldest cfg c)) then b else b(key := n))"
proof -
  let ?e = "evictOldest cfg c"
  let ?v = "\<lparr>data = d, timestamp = now\<rparr>"
  have dc: "distinct (map fst c)" and lc: "length c \<le> MAX_SIZE cfg"
    using assms(2) by (auto simp: cacheInv_def)
  have e: "?e = (if MAX_SIZE cfg \<le> length c then tl c else c)"
    using dc by (rule evictOldest_distinct)
  have inv: "cacheInv cfg n ?e b"
    using assms(2) cacheInv_tl by (simp add: e)
  have len: "length ?e < MAX_SIZE cfg"
    using dc assms(1) lc by (rule length_evictOldest)
  show ?thesis
  proof (cases "key \<in> set (map fst ?e)")
    case True
    then have k: "map fst (cacheSet key ?v ?e) = map fst ?e"
      and l: "length (cacheSet key ?v ?e) = length ?e"
      by (simp_all only: keys_cacheSet length_cacheSet if_True)
    show ?thesis
      using inv True len unfolding cacheInv_def updateCache_def k l
      by (auto simp: less_Suc_eq)
  next
    case False
    then have k: "map fst (cacheSet key ?v ?e) = map fst ?e @ [key]"
      and l: "length (cacheSet key ?v ?e) = Suc (length ?e)"
      by (simp_all only: keys_cacheSet length_cacheSet if_False)
    have m: "map (b(key := n) \<circ> fst) ?e = map (b \<circ> fst) ?e"
      using False by (intro map_cong) auto
    show ?thesis
      using inv False len unfolding cacheInv_def updateCache_def k l
      by (auto simp: sorted_wrt_append m less_Suc_eq)
  qed
qed

lemma cacheInv_mono: "cacheInv cfg n c b \<Longrightarrow> cacheInv cfg (Suc n) c b"
  by (auto simp: cacheInv_def less_Suc_eq)

lemma cacheInv_run:
  "0 < MAX_SIZE cfg \<Longrightarrow> cacheInv cfg n c b \<Longrightarrow>
     cacheInv cfg (n + length ops) (runOps cfg ops c) (insertedAt cfg ops n c b)"
proof (induction ops arbitrary: n c b)
  case Nil
  then show ?case by simp
next
  case (Cons op ops)
  show ?case
  proof (cases op)
    case (Put key d now)
    have "cacheInv cfg (Suc n) (updateCache cfg key d now c)
           (if key \<in> set (map fst (evictOldest cfg c)) then b else b(key := n))"
      using Cons.prems by (rule cacheInv_put)
    from Cons.IH[OF Cons.prems(1) this] show ?thesis using Put by simp
  next
    case (Hit key)
    from Cons.IH[OF Cons.prems(1) cacheInv_mono[OF Cons.prems(2)]] show ?thesis
      using Hit by simp
  qed
qed

lemma insertedAt_is_put:
  assumes "\<forall>k \<in> set (map fst c). b k < length pre \<and> (\<exists>d t. pre ! b k = Put k d t)"
  shows "\<forall>k \<in> set (map fst (runOps cfg ops c)).
           insertedAt cfg ops (length pre) c b k < length (pre @ ops) \<and>
           (\<exists>d t. (pre @ ops) ! insertedAt cfg ops (length pre) c b k = Put k d t)"
  using assms
proof (induction ops arbitrary: pre c b)
  case Nil
  then show ?case by simp
next
  case (Cons op ops)
  show ?case
  proof (cases op)
    case (Hit key)
    have "\<forall>k \<in> set (map fst c). b k < length (pre @ [op]) \<and> (\<exists>d t. (pre @ [op]) ! b k = Put k d t)"
      using Cons.prems by (auto simp: nth_append)
    from Cons.IH[OF this] show ?thesis using Hit by simp
  next
    case (Put key d now)
    let ?c' = "updateCache cfg key d now c"
    let ?b' = "if key \<in> set (map fst (evictOldest cfg c)) then b else b(key := length pre)"
    have "\<forall>k \<in> set (map fst ?c'). ?b' k < length (pre @ [op]) \<and> (\<exists>d t. (pre @ [op]) ! ?b' k = Put k d t)"
    proof
      fix k assume "k \<in> set (map fst ?c')"
      then have k: "k = key \<or> k \<in> set (map fst (evictOldest cfg c))"
        by (auto simp: updateCache_def keys_cacheSet split: if_splits)
      show "?b' k < length (pre @ [op]) \<and> (\<exists>d t. (pre @ [op]) ! ?b' k = Put k d t)"
      proof (cases "k \<in> set (map fst (evictOldest cfg c))")
        case True
        then have "k \<in> set (map fst c)" using keys_evictOldest_subset by blast
        with Cons.prems have "b k < length pre \<and> (\<exists>d t. pre ! b k = Put k d t)" by blast
        moreover have "?b' k = b k" using True by auto
        ultimately show ?thesis by (auto simp: nth_append)
      next
        case False
        with k have "k = key" by simp
        with False show ?thesis using Put by simp
      qed
    qed
    from Cons.IH[OF this] show ?thesis using Put by simp
  qed
qed

text \<open>
  \<^bold>\<open>C3.\<close> With \<open>MAX_SIZE\<close> positive, after any sequence of puts and reads that starts from
  the empty cache at most \<open>MAX_SIZE\<close> entries are held. When a put meets a cache that holds
  \<open>MAX_SIZE\<close> entries or more, exactly one entry is removed before the insertion: the first of
  the map, whose insertion number is smaller than that of every other held entry. Reads and
  overwrites of held keys do not change insertion numbers (see \<open>insertedAt\<close>); the insertion
  number of a held key is the position, in the sequence, of a put under that key.
\<close>

theorem cache_bound_fifo:
  assumes "0 < MAX_SIZE cfg"
  shows "length (runOps cfg ops []) \<le> MAX_SIZE cfg \<and>
         (MAX_SIZE cfg \<le> length (runOps cfg ops []) \<longrightarrow>
            (\<exists>first rest. runOps cfg ops [] = first # rest \<and>
               evictOldest cfg (runOps cfg ops []) = rest \<and>
               updateCache cfg key d now (runOps cfg ops []) =
                 cacheSet key \<lparr>data = d, timestamp = now\<rparr> rest \<and>
               length (updateCache cfg key d now (runOps cfg ops [])) \<le> MAX_SIZE cfg \<and>
               (\<forall>kv \<in> set rest.
                  insertedAt cfg ops 0 [] (\<lambda>k. 0) (fst first)
                    < insertedAt cfg ops 0 [] (\<lambda>k. 0) (fst kv)))) \<and>
         (\<forall>kv \<in> set (runOps cfg ops []).
            insertedAt cfg ops 0 [] (\<lambda>k. 0) (fst kv) < length ops \<and>
            (\<exists>d' t. ops ! insertedAt cfg ops 0 [] (\<lambda>k. 0) (fst kv) = Put (fst kv) d' t))"
proof -
  let ?c = "runOps cfg ops []" and ?b = "insertedAt cfg ops 0 [] (\<lambda>k. 0)"
  have "cacheInv cfg 0 [] (\<lambda>k. 0)" by (simp add: cacheInv_def)
  from cacheInv_run[OF assms this, of ops] have inv: "cacheInv cfg (length ops) ?c ?b" by simp
  then have len: "length ?c \<le> MAX_SIZE cfg" and d: "distinct (map fst ?c)"
    and s: "sorted_wrt (<) (map ?b (map fst ?c))"
    by (auto simp: cacheInv_def)
  have "\<exists>first rest. ?c = first # rest \<and> evictOldest cfg ?c = rest \<and>
               updateCache cfg key d now ?c = cacheSet key \<lparr>data = d, timestamp = now\<rparr> rest \<and>
               length (updateCache cfg key d now ?c) \<le> MAX_SIZE cfg \<and>
               (\<forall>kv \<in> set rest. ?b (fst first) < ?b (fst kv))"
    if full: "MAX_SIZE cfg \<le> length ?c"
  proof (cases ?c)
    case Nil
    with full assms show ?thesis by simp
  next
    case (Cons first rest)
    have ev: "evictOldest cfg ?c = rest"
      using d full Cons by (simp add: evictOldest_distinct)
    have "length rest < MAX_SIZE cfg" using len Cons by simp
    then have "length (cacheSet key \<lparr>data = d, timestamp = now\<rparr> rest) \<le> MAX_SIZE cfg"
      by (simp add: length_cacheSet)
    moreover have "\<forall>kv \<in> set rest. ?b (fst first) < ?b (fst kv)"
      using s Cons by simp
    ultimately show ?thesis using Cons ev by (simp add: updateCache_def)
  qed
  moreover have "\<forall>kv \<in> set ?c. ?b (fst kv) < length ops \<and>
            (\<exists>d' t. ops ! ?b (fst kv) = Put (fst kv) d' t)"
    using insertedAt_is_put[of "[]" "\<lambda>k. 0" "[]" cfg ops] by simp
  ultimately show ?thesis using len by blast
qed

theorem cache_bound_fifo_witness:
  "0 < MAX_SIZE exampleConfig \<and>
   runOps exampleConfig
     [Put ''A'' [] 1, Put ''B'' [] 2, Hit ''A'', Put ''B'' [Some recordA] 3, Put ''C'' [] 4] []
     = [(''B'', \<lparr>data = [Some recordA], timestamp = 3\<rparr>), (''C'', \<lparr>data = [], timestamp = 4\<rparr>)] \<and>
   insertedAt exampleConfig
     [Put ''A'' [] 1, Put ''B'' [] 2, Hit ''A'', Put ''B'' [Some recordA] 3, Put ''C'' [] 4] 0 [] (\<lambda>k. 0) ''B''
     < insertedAt exampleConfig
     [Put ''A'' [] 1, Put ''B'' [] 2, Hit ''A'', Put ''B'' [Some recordA] 3, Put ''C'' [] 4] 0 [] (\<lambda>k. 0) ''C''"
proof -
  let ?ops = "[Put ''A'' [] 1, Put ''B'' [] 2, Hit ''A'', Put ''B'' [Some recordA] 3, Put ''C'' [] 4]"
  have h: "0 < MAX_SIZE exampleConfig" by (simp add: exampleConfig_def)
  have m: "MAX_SIZE exampleConfig = 2" by (simp add: exampleConfig_def)
  have r: "runOps exampleConfig ?ops []
     = [(''B'', \<lparr>data = [Some recordA], timestamp = 3\<rparr>), (''C'', \<lparr>data = [], timestamp = 4\<rparr>)]"
    by (simp add: updateCache_def evictOldest_def cacheDelete_def m)
  from cache_bound_fifo[OF h, of ?ops "''D''" "[]" 5]
  have "insertedAt exampleConfig ?ops 0 [] (\<lambda>k. 0) ''B'' < insertedAt exampleConfig ?ops 0 [] (\<lambda>k. 0) ''C''"
    unfolding r m by simp
  then show ?thesis using h r by simp
qed


section \<open>The seeded shuffle\<close>

lemma roundEven_near: "\<bar>q - of_int m\<bar> < 1 / 2 \<Longrightarrow> roundEven q = m"
proof -
  assume a: "\<bar>q - of_int m\<bar> < 1 / 2"
  show ?thesis
  proof (cases "of_int m \<le> q")
    case True
    then have "\<lfloor>q\<rfloor> = m" using a by (intro floor_unique) auto
    then show ?thesis using a True by (simp add: roundEven_def Let_def)
  next
    case False
    then have f: "\<lfloor>q\<rfloor> = m - 1" using a by (intro floor_unique) auto
    have "1 / 2 < q - of_int (m - 1)" using a False by auto
    then show ?thesis using f by (simp add: roundEven_def Let_def)
  qed
qed

lemma roundEven_int: "roundEven (of_int m) = m"
  by (rule roundEven_near) simp

lemma fl_zero: "fl 0 = 0"
  by (simp add: fl_def)






lemma roundEven_nonneg: "0 \<le> q \<Longrightarrow> 0 \<le> roundEven q"
  by (auto simp: roundEven_def Let_def)

lemma fl_nonneg: "0 \<le> x \<Longrightarrow> 0 \<le> fl x"
proof -
  assume "0 \<le> x"
  then have "0 \<le> x / 2 powr of_int (\<lfloor>log 2 \<bar>x\<bar>\<rfloor> - 52)" by simp
  then have "0 \<le> roundEven (x / 2 powr of_int (\<lfloor>log 2 \<bar>x\<bar>\<rfloor> - 52))" by (rule roundEven_nonneg)
  then show ?thesis by (simp add: fl_def Let_def)
qed

lemma random_nonneg: "0 \<le> random s"
  unfolding random_def Let_def by (rule fl_nonneg) linarith

lemma value_random_zero: "random 0 = 0"
  by (simp add: random_def mathSin_def fl_zero)



lemma length_arraySet:
  "length (arraySet xs i v) = (if i < length xs then length xs else Suc i)"
  by (simp add: arraySet_def)

lemma swap_in_range:
  "i < length xs \<Longrightarrow> j < length xs \<Longrightarrow>
     arraySet (arraySet xs i (arrayGet xs j)) j (arrayGet xs i) = (xs[i := xs ! j])[j := xs ! i]"
  by (simp add: arraySet_def arrayGet_def)

lemma mset_swap_cells:
  "i < length xs \<Longrightarrow> j < length xs \<Longrightarrow>
     mset (arraySet (arraySet xs i (arrayGet xs j)) j (arrayGet xs i)) = mset xs \<and>
     length (arraySet (arraySet xs i (arrayGet xs j)) j (arrayGet xs i)) = length xs"
  by (simp add: swap_in_range) (metis mset_swap)


lemma shuffleLoop_mset:
  "s < length h \<Longrightarrow> n < length (h ! s) \<Longrightarrow> drawsInRange cur n \<Longrightarrow>
     mset (shuffleLoop h s cur n ! s) = mset (h ! s)"
proof (induction n arbitrary: h cur)
  case 0
  then show ?case by simp
next
  case (Suc n)
  let ?j = "nat \<lfloor>fl (random cur * real (Suc n + 1))\<rfloor>"
  let ?arr = "h ! s"
  let ?arr' = "arraySet (arraySet ?arr (Suc n) (arrayGet ?arr ?j)) ?j (arrayGet ?arr (Suc n))"
  have j: "?j \<le> Suc n" and d: "drawsInRange (fl (cur + 1)) n"
    using Suc.prems(3) by simp_all
  then have m: "mset ?arr' = mset ?arr \<and> length ?arr' = length ?arr"
    using Suc.prems(2) by (intro mset_swap_cells) auto
  have "mset (shuffleLoop (h[s := ?arr']) s (fl (cur + 1)) n ! s) = mset (h[s := ?arr'] ! s)"
    using Suc.prems(1,2) m d by (intro Suc.IH) auto
  then show ?case using Suc.prems(1) m by (simp add: Let_def)
qed

lemma shuffleLoop_local:
  "s1 < length h1 \<Longrightarrow> s2 < length h2 \<Longrightarrow> h1 ! s1 = h2 ! s2 \<Longrightarrow>
     shuffleLoop h1 s1 cur n ! s1 = shuffleLoop h2 s2 cur n ! s2"
proof (induction n arbitrary: h1 h2 cur)
  case 0
  then show ?case by simp
next
  case (Suc n)
  show ?case using Suc.prems by (simp add: Let_def Suc.IH)
qed

lemma seededShuffle_empty: "seededShuffle [] seed = []"
  by (simp add: seededShuffle_def seededShuffleStore_def)

lemma mset_seededShuffle:
  "drawsInRange seed (length xs - 1) \<Longrightarrow> mset (seededShuffle xs seed) = mset xs"
proof (cases "xs = []")
  case True
  then show ?thesis by (simp add: seededShuffle_empty)
next
  case False
  assume d: "drawsInRange seed (length xs - 1)"
  from False have "length xs - 1 < length ([xs, xs] ! 1)" by simp
  from shuffleLoop_mset[OF _ this d] show ?thesis
    by (simp add: seededShuffle_def seededShuffleStore_def)
qed

lemma seededShuffleStore_value:
  assumes "array < length h"
  shows "fst (seededShuffleStore h array seed) ! snd (seededShuffleStore h array seed)
           = seededShuffle (h ! array) seed"
proof -
  have "shuffleLoop (h @ [h ! array]) (length h) seed n ! length h
          = shuffleLoop [h ! array, h ! array] 1 seed n ! 1" for n
    by (rule shuffleLoop_local) simp_all
  then show ?thesis
    by (simp add: seededShuffle_def seededShuffleStore_def Let_def)
qed

lemma replicate_mset_sum: "replicate_mset (a + b) x = replicate_mset a x + replicate_mset b x"
  by (induction a) simp_all

lemma swap_mset_any:
  assumes "i < length xs"
  shows "\<exists>k. mset (arraySet (arraySet xs i (arrayGet xs j)) j (arrayGet xs i))
              = mset xs + replicate_mset k None \<and>
             length xs \<le> length (arraySet (arraySet xs i (arrayGet xs j)) j (arrayGet xs i))"
proof (cases "j < length xs")
  case True
  from mset_swap_cells[OF assms True] show ?thesis
    by (intro exI[of _ 0]) simp
next
  case False
  let ?k = "Suc (j - length xs)"
  have m: "xs ! i \<in># mset xs" using assms by simp
  have "mset (xs[i := None]) = add_mset None (mset xs - {#xs ! i#})"
    using assms by (rule mset_update)
  then have "mset (xs[i := None] @ replicate (j - length xs) None @ [xs ! i])
        = mset xs + replicate_mset ?k None"
    using m by simp
  then show ?thesis
    using False assms by (intro exI[of _ ?k]) (simp add: arraySet_def arrayGet_def)
qed

lemma shuffleLoop_keeps_elements:
  "s < length h \<Longrightarrow> n < length (h ! s) \<Longrightarrow>
     \<exists>k. mset (shuffleLoop h s cur n ! s) = mset (h ! s) + replicate_mset k None"
proof (induction n arbitrary: h cur)
  case 0
  then show ?case by (intro exI[of _ 0]) simp
next
  case (Suc n)
  let ?j = "nat \<lfloor>fl (random cur * real (Suc n + 1))\<rfloor>"
  let ?arr = "h ! s"
  let ?arr' = "arraySet (arraySet ?arr (Suc n) (arrayGet ?arr ?j)) ?j (arrayGet ?arr (Suc n))"
  from swap_mset_any[OF Suc.prems(2), of ?j] obtain k1 where
    m: "mset ?arr' = mset ?arr + replicate_mset k1 None" and l: "length ?arr \<le> length ?arr'"
    by blast
  have "\<exists>k. mset (shuffleLoop (h[s := ?arr']) s (fl (cur + 1)) n ! s)
          = mset (h[s := ?arr'] ! s) + replicate_mset k None"
    using Suc.prems l by (intro Suc.IH) auto
  then obtain k2 where
    "mset (shuffleLoop (h[s := ?arr']) s (fl (cur + 1)) n ! s) = mset ?arr' + replicate_mset k2 None"
    using Suc.prems(1) by auto
  then have "mset (shuffleLoop h s cur (Suc n) ! s) = mset ?arr + replicate_mset (k1 + k2) None"
    using m by (simp add: Let_def replicate_mset_sum)
  then show ?case by blast
qed

lemma seededShuffle_keeps_elements:
  "\<exists>k. mset (seededShuffle xs seed) = mset xs + replicate_mset k None"
proof (cases "xs = []")
  case True
  then show ?thesis by (intro exI[of _ 0]) (simp add: seededShuffle_empty)
next
  case False
  then have "length xs - 1 < length ([xs, xs] ! 1)" by simp
  from shuffleLoop_keeps_elements[OF _ this, of seed] show ?thesis
    by (simp add: seededShuffle_def seededShuffleStore_def)
qed

lemma value_seededShuffle_single: "seededShuffle [x] seed = [x]"
  by (simp add: seededShuffle_def seededShuffleStore_def)

lemma value_seededShuffle_pair: "seededShuffle [x, y] 0 = [y, x]"
  by (simp add: seededShuffle_def seededShuffleStore_def value_random_zero fl_zero
      arraySet_def arrayGet_def)

lemma value_drawsInRange_zero: "drawsInRange 0 (Suc 0)"
  by (simp add: value_random_zero fl_zero)





section \<open>Retries\<close>

lemma retryPattern_step:
  "k < RETRY_COUNT cfg \<Longrightarrow>
     retryPattern cfg url k =
       Request url # Delay (RETRY_DELAY cfg * (k + 1)) # retryPattern cfg url (Suc k)"
  by (simp add: retryPattern_def upt_conv_Cons)

lemma retryPattern_last: "RETRY_COUNT cfg \<le> k \<Longrightarrow> retryPattern cfg url k = [Request url]"
  by (simp add: retryPattern_def)

lemma retryPattern_requests:
  "k \<le> RETRY_COUNT cfg \<Longrightarrow>
     length (filter isRequest (retryPattern cfg url k)) = RETRY_COUNT cfg - k + 1"
proof (induction "RETRY_COUNT cfg - k" arbitrary: k)
  case 0
  then show ?case by (simp add: retryPattern_last)
next
  case (Suc m)
  then have "k < RETRY_COUNT cfg" by simp
  moreover have "length (filter isRequest (retryPattern cfg url (Suc k))) = RETRY_COUNT cfg - Suc k + 1"
    using Suc by (intro Suc.hyps) auto
  ultimately show ?case by (simp add: retryPattern_step)
qed

lemma retryPattern_delays:
  "filter (\<lambda>e. \<not> isRequest e) (retryPattern cfg url k) =
     map (\<lambda>j. Delay (RETRY_DELAY cfg * (j + 1))) [k..<RETRY_COUNT cfg]"
  by (induction "[k..<RETRY_COUNT cfg]" arbitrary: k)
     (simp_all add: retryPattern_def filter_concat comp_def)

lemma fetchWithRetry_all_fail:
  assumes "\<forall>t. isl (fst (attemptOnce cfg up url t))"
  shows "\<exists>tl. fetchWithRetry cfg up url k t =
           (fst (attemptOnce cfg up url tl), snd (attemptOnce cfg up url tl),
            snd (snd (fetchWithRetry cfg up url k t))) \<and>
         map snd (snd (snd (fetchWithRetry cfg up url k t))) = retryPattern cfg url k \<and>
         last (snd (snd (fetchWithRetry cfg up url k t))) = (tl, Request url)"
using assms
proof (induction cfg up url k t rule: fetchWithRetry.induct)
  case (1 cfg up url retryCount t)
  let ?r = "attemptOnce cfg up url t"
  have f: "isl (fst ?r)" using "1.prems" by simp
  show ?case
  proof (cases "retryCount < RETRY_COUNT cfg")
    case True
    let ?ms = "RETRY_DELAY cfg * (retryCount + 1)"
    let ?rest = "fetchWithRetry cfg up url (retryCount + 1) (snd ?r + int ?ms)"
    from "1.IH"[OF refl f True refl "1.prems"] obtain tl where
      tl: "?rest = (fst (attemptOnce cfg up url tl), snd (attemptOnce cfg up url tl), snd (snd ?rest))"
      "map snd (snd (snd ?rest)) = retryPattern cfg url (retryCount + 1)"
      "last (snd (snd ?rest)) = (tl, Request url)"
      by blast
    have ne: "snd (snd ?rest) \<noteq> []"
      using tl(2) by (auto simp: retryPattern_def)
    have eq: "fetchWithRetry cfg up url retryCount t =
            (fst ?rest, fst (snd ?rest), (t, Request url) # (snd ?r, Delay ?ms) # snd (snd ?rest))"
      using f True by (subst fetchWithRetry.simps) (simp add: Let_def)
    have a: "fst ?rest = fst (attemptOnce cfg up url tl)"
      and b: "fst (snd ?rest) = snd (attemptOnce cfg up url tl)"
      using tl(1) by (metis fst_conv, metis fst_conv snd_conv)
    have p: "retryPattern cfg url retryCount =
               Request url # Delay ?ms # retryPattern cfg url (retryCount + 1)"
      using retryPattern_step[OF True, of url] by simp
    show ?thesis
      apply (rule exI[of _ tl])
      unfolding eq p using tl(2,3) ne a b by simp
  next
    case False
    have eq: "fetchWithRetry cfg up url retryCount t = (fst ?r, snd ?r, [(t, Request url)])"
      using f False by (subst fetchWithRetry.simps) (simp add: Let_def)
    show ?thesis
      apply (rule exI[of _ t])
      unfolding eq using False by (simp add: retryPattern_last)
  qed
qed

lemma fetchWithRetry_exhausted:
  assumes "\<forall>t. isl (fst (attemptOnce cfg up url t))"
  shows "\<exists>error tl t' l.
           fetchWithRetry cfg up url 0 t = (Inl error, t', l) \<and>
           map snd l = retryPattern cfg url 0 \<and>
           last l = (tl, Request url) \<and>
           attemptOnce cfg up url tl = (Inl error, t')"
proof -
  let ?run = "fetchWithRetry cfg up url 0 t"
  from fetchWithRetry_all_fail[OF assms, of 0 t] obtain tl where
    run: "?run = (fst (attemptOnce cfg up url tl), snd (attemptOnce cfg up url tl), snd (snd ?run))"
    and pat: "map snd (snd (snd ?run)) = retryPattern cfg url 0"
    and lst: "last (snd (snd ?run)) = (tl, Request url)"
    by blast
  obtain error where err: "fst (attemptOnce cfg up url tl) = Inl error"
    using spec[OF assms, of tl] by (cases "fst (attemptOnce cfg up url tl)") auto
  obtain t' l where tl': "t' = snd (attemptOnce cfg up url tl)" "l = snd (snd ?run)"
    by simp
  have "?run = (Inl error, t', l)" using run err tl' by simp
  moreover have "attemptOnce cfg up url tl = (Inl error, t')"
    using err tl' by (simp add: prod_eq_iff)
  moreover have "map snd l = retryPattern cfg url 0" using pat tl' by simp
  moreover have "last l = (tl, Request url)" using lst tl' by simp
  ultimately show ?thesis by blast
qed

lemma attemptOnce_failure:
  assumes "attemptOnce cfg up url t = (Inl error, t')"
  shows "(TIMEOUT cfg \<le> latency (up url t) \<and> error = abortError) \<or>
         (latency (up url t) < TIMEOUT cfg \<and> settles (up url t) = Rejects error) \<or>
         (\<exists>r. latency (up url t) < TIMEOUT cfg \<and> settles (up url t) = Resolves r \<and>
               (if ok r then body r = Inl error else error = httpError r))"
  using assms
  by (auto simp: attemptOnce_def Let_def split: if_splits settlement.splits)

lemma fetchWithRetry_first_event:
  "\<exists>l. snd (snd (fetchWithRetry cfg up url k t)) = (t, Request url) # l"
  by (subst fetchWithRetry.simps) (simp add: Let_def)

lemma value_serverError: "attemptOnce exampleConfig alwaysDown url t = (Inl (JSError ''Error'' ''HTTP 500: Internal Server Error''), t + 20)"
  by (simp add: attemptOnce_def alwaysDown_def serverError_def exampleConfig_def ok_def httpError_def stringOfNat.simps digitChar_def)

lemma value_three_failures:
  assumes "\<And>t. attemptOnce exampleConfig up url t = (Inl error, t + 20)"
  shows "fetchWithRetry exampleConfig up url 0 0 =
     (Inl error, 360,
      [(0, Request url), (20, Delay 100), (120, Request url), (140, Delay 200), (340, Request url)])"
proof -
  have rc: "RETRY_COUNT exampleConfig = 2" "RETRY_DELAY exampleConfig = 100"
    by (simp_all add: exampleConfig_def)
  have "fetchWithRetry exampleConfig up url (Suc (Suc 0)) 340 =
      (Inl error, 360, [(340, Request url)])"
    by (subst fetchWithRetry.simps) (simp add: assms rc)
  then have "fetchWithRetry exampleConfig up url (Suc 0) 120 =
      (Inl error, 360, [(120, Request url), (140, Delay 200), (340, Request url)])"
    by (subst fetchWithRetry.simps) (simp add: assms rc)
  then show ?thesis
    by (subst fetchWithRetry.simps) (simp add: assms rc)
qed

lemma fetchProducts_hit:
  "cacheLookup cfg c now endpoint = Some cached \<Longrightarrow>
     fetchProducts fuel cfg up c now endpoint = Some (Inr cached, now, [], [])"
  by (simp add: fetchProducts.simps)

lemma fetchProducts_direct:
  "cacheLookup cfg c now endpoint = None \<Longrightarrow> endpoint \<noteq> ''Hot'' \<Longrightarrow>
     fetchProducts fuel cfg up c now endpoint = Some (fetchDirect cfg up now endpoint)"
  by (simp add: fetchProducts.simps)

lemma fetchWithRetry_times:
  "snd (snd (fetchWithRetry cfg up url k t)) ! 0 = (t, Request url) \<and>
   (\<forall>j. k + j < RETRY_COUNT cfg \<longrightarrow>
      fst (snd (snd (fetchWithRetry cfg up url k t)) ! (2 * j + 1))
        = snd (attemptOnce cfg up url (fst (snd (snd (fetchWithRetry cfg up url k t)) ! (2 * j)))) \<and>
      fst (snd (snd (fetchWithRetry cfg up url k t)) ! (2 * j + 2))
        = fst (snd (snd (fetchWithRetry cfg up url k t)) ! (2 * j + 1))
            + int (RETRY_DELAY cfg * (k + j + 1)))"
  if "\<forall>t. isl (fst (attemptOnce cfg up url t))"
  using that
proof (induction cfg up url k t rule: fetchWithRetry.induct)
  case (1 cfg up url retryCount t)
  let ?r = "attemptOnce cfg up url t"
  have f: "isl (fst ?r)" using "1.prems" by simp
  show ?case
  proof (cases "retryCount < RETRY_COUNT cfg")
    case True
    let ?ms = "RETRY_DELAY cfg * (retryCount + 1)"
    let ?rest = "fetchWithRetry cfg up url (retryCount + 1) (snd ?r + int ?ms)"
    let ?l' = "snd (snd ?rest)"
    note ih = "1.IH"[OF refl f True refl "1.prems"]
    have eq: "snd (snd (fetchWithRetry cfg up url retryCount t)) =
            (t, Request url) # (snd ?r, Delay ?ms) # ?l'"
      using f True by (subst fetchWithRetry.simps) (simp add: Let_def)
    have first: "?l' ! 0 = (snd ?r + int ?ms, Request url)" using ih by simp
    have step: "fst (((t, Request url) # (snd ?r, Delay ?ms) # ?l') ! (2 * j + 1))
        = snd (attemptOnce cfg up url (fst (((t, Request url) # (snd ?r, Delay ?ms) # ?l') ! (2 * j)))) \<and>
      fst (((t, Request url) # (snd ?r, Delay ?ms) # ?l') ! (2 * j + 2))
        = fst (((t, Request url) # (snd ?r, Delay ?ms) # ?l') ! (2 * j + 1))
            + int (RETRY_DELAY cfg * (retryCount + j + 1))"
      if j: "retryCount + j < RETRY_COUNT cfg" for j
    proof (cases j)
      case 0
      then show ?thesis using first by simp
    next
      case (Suc j')
      then have "retryCount + 1 + j' < RETRY_COUNT cfg" using j by simp
      with ih have "fst (?l' ! (2 * j' + 1)) = snd (attemptOnce cfg up url (fst (?l' ! (2 * j')))) \<and>
          fst (?l' ! (2 * j' + 2)) = fst (?l' ! (2 * j' + 1)) + int (RETRY_DELAY cfg * (retryCount + 1 + j' + 1))"
        by blast
      then show ?thesis using Suc by (simp add: add.commute add.left_commute)
    qed
    show ?thesis unfolding eq using step by simp
  next
    case False
    have eq: "snd (snd (fetchWithRetry cfg up url retryCount t)) = [(t, Request url)]"
      using f False by (subst fetchWithRetry.simps) (simp add: Let_def)
    show ?thesis unfolding eq using False by simp
  qed
qed

text \<open>
  \<^bold>\<open>C2.\<close> When every attempt on a URL fails, \<open>fetchWithRetry\<close> issues exactly
  \<open>RETRY_COUNT + 1\<close> requests, the first at the time of the call. The delay after the failure
  of attempt \<open>k\<close> (from 0) starts when that attempt ends and lasts \<open>RETRY_DELAY * (k + 1)\<close>, and
  the next request is issued when the delay is over, not before. The call ends with the
  failure of the last attempt, at the time that attempt ends. A call of \<open>fetchProducts\<close> for
  a category other than Hot that builds this URL and is not served from the cache rejects
  with the classified error for that failure, after these same events.
\<close>

theorem retry_bound:
  assumes "\<forall>t. isl (fst (attemptOnce cfg up url t))"
  shows "\<exists>error tl t' l.
           fetchWithRetry cfg up url 0 t = (Inl error, t', l) \<and>
           map snd l = retryPattern cfg url 0 \<and>
           length (filter isRequest (map snd l)) = RETRY_COUNT cfg + 1 \<and>
           filter (\<lambda>e. \<not> isRequest e) (map snd l) =
             map (\<lambda>k. Delay (RETRY_DELAY cfg * (k + 1))) [0..<RETRY_COUNT cfg] \<and>
           l ! 0 = (t, Request url) \<and>
           (\<forall>k. k < RETRY_COUNT cfg \<longrightarrow>
              fst (l ! (2 * k + 1)) = snd (attemptOnce cfg up url (fst (l ! (2 * k)))) \<and>
              fst (l ! (2 * k + 2)) = fst (l ! (2 * k + 1)) + int (RETRY_DELAY cfg * (k + 1))) \<and>
           last l = (tl, Request url) \<and>
           attemptOnce cfg up url tl = (Inl error, t') \<and>
           (\<forall>fuel c endpoint.
              endpoint \<noteq> ''Hot'' \<and> apiUrl cfg endpoint = url \<and> cacheLookup cfg c t endpoint = None \<longrightarrow>
                fetchProducts fuel cfg up c t endpoint = Some (Inl (handleError cfg error), t', l, []) \<and>
                handleError cfg error = JSError ''Error'' (kindMessage cfg (classify error)))"
proof -
  let ?run = "fetchWithRetry cfg up url 0 t"
  from fetchWithRetry_all_fail[OF assms, of 0 t] obtain tl where
    run: "?run = (fst (attemptOnce cfg up url tl), snd (attemptOnce cfg up url tl), snd (snd ?run))"
    and pat: "map snd (snd (snd ?run)) = retryPattern cfg url 0"
    and lst: "last (snd (snd ?run)) = (tl, Request url)"
    by blast
  obtain error where err: "fst (attemptOnce cfg up url tl) = Inl error"
    using spec[OF assms, of tl] by (cases "fst (attemptOnce cfg up url tl)") auto
  obtain t' l where tl': "t' = snd (attemptOnce cfg up url tl)" "l = snd (snd ?run)"
    by simp
  have run': "?run = (Inl error, t', l)" using run err tl' by simp
  have att: "attemptOnce cfg up url tl = (Inl error, t')" using err tl' by (simp add: prod_eq_iff)
  have pat': "map snd l = retryPattern cfg url 0" using pat tl' by simp
  have cnt: "length (filter isRequest (map snd l)) = RETRY_COUNT cfg + 1"
    using retryPattern_requests[of 0 cfg url] by (simp add: pat')
  have del: "filter (\<lambda>e. \<not> isRequest e) (map snd l) =
             map (\<lambda>k. Delay (RETRY_DELAY cfg * (k + 1))) [0..<RETRY_COUNT cfg]"
    by (simp only: pat' retryPattern_delays)
  have lst': "last l = (tl, Request url)" using lst tl' by simp
  have tm: "l ! 0 = (t, Request url) \<and>
           (\<forall>k. k < RETRY_COUNT cfg \<longrightarrow>
              fst (l ! (2 * k + 1)) = snd (attemptOnce cfg up url (fst (l ! (2 * k)))) \<and>
              fst (l ! (2 * k + 2)) = fst (l ! (2 * k + 1)) + int (RETRY_DELAY cfg * (k + 1)))"
    using fetchWithRetry_times[OF assms, of 0 t] tl'(2) by simp
  note tm0 = conjunct1[OF tm] and tm1 = conjunct2[OF tm]
  have fp: "\<forall>fuel c endpoint.
              endpoint \<noteq> ''Hot'' \<and> apiUrl cfg endpoint = url \<and> cacheLookup cfg c t endpoint = None \<longrightarrow>
                fetchProducts fuel cfg up c t endpoint = Some (Inl (handleError cfg error), t', l, []) \<and>
                handleError cfg error = JSError ''Error'' (kindMessage cfg (classify error))"
    by (simp add: fetchProducts_direct fetchDirect_def run' handleError_kind)
  show ?thesis
    apply (rule exI[of _ error], rule exI[of _ tl], rule exI[of _ t'], rule exI[of _ l])
    by (intro conjI run' pat' cnt del tm0 tm1 lst' att fp)
qed

theorem retry_bound_witness:
  "(\<forall>t. isl (fst (attemptOnce exampleConfig alwaysDown ''https://api.example/Bags'' t))) \<and>
   fetchWithRetry exampleConfig alwaysDown ''https://api.example/Bags'' 0 0 =
     (Inl (JSError ''Error'' ''HTTP 500: Internal Server Error''), 360,
      [(0, Request ''https://api.example/Bags''), (20, Delay 100),
       (120, Request ''https://api.example/Bags''), (140, Delay 200),
       (340, Request ''https://api.example/Bags'')]) \<and>
   (\<exists>error tl t' l.
      fetchWithRetry exampleConfig alwaysDown ''https://api.example/Bags'' 0 0 = (Inl error, t', l) \<and>
      map snd l = retryPattern exampleConfig ''https://api.example/Bags'' 0 \<and>
      length (filter isRequest (map snd l)) = RETRY_COUNT exampleConfig + 1 \<and>
      filter (\<lambda>e. \<not> isRequest e) (map snd l) =
        map (\<lambda>k. Delay (RETRY_DELAY exampleConfig * (k + 1))) [0..<RETRY_COUNT exampleConfig] \<and>
      l ! 0 = (0, Request ''https://api.example/Bags'') \<and>
      (\<forall>k. k < RETRY_COUNT exampleConfig \<longrightarrow>
         fst (l ! (2 * k + 1))
           = snd (attemptOnce exampleConfig alwaysDown ''https://api.example/Bags'' (fst (l ! (2 * k)))) \<and>
         fst (l ! (2 * k + 2)) = fst (l ! (2 * k + 1)) + int (RETRY_DELAY exampleConfig * (k + 1))) \<and>
      last l = (tl, Request ''https://api.example/Bags'') \<and>
      attemptOnce exampleConfig alwaysDown ''https://api.example/Bags'' tl = (Inl error, t') \<and>
      (\<forall>fuel c endpoint.
         endpoint \<noteq> ''Hot'' \<and> apiUrl exampleConfig endpoint = ''https://api.example/Bags'' \<and>
         cacheLookup exampleConfig c 0 endpoint = None \<longrightarrow>
           fetchProducts fuel exampleConfig alwaysDown c 0 endpoint =
             Some (Inl (handleError exampleConfig error), t', l, []) \<and>
           handleError exampleConfig error =
             JSError ''Error'' (kindMessage exampleConfig (classify error))))"
proof -
  let ?url = "''https://api.example/Bags''"
  have h: "\<forall>t. isl (fst (attemptOnce exampleConfig alwaysDown ?url t))"
    by (simp add: value_serverError)
  have v: "fetchWithRetry exampleConfig alwaysDown ?url 0 0 =
     (Inl (JSError ''Error'' ''HTTP 500: Internal Server Error''), 360,
      [(0, Request ?url), (20, Delay 100), (120, Request ?url), (140, Delay 200), (340, Request ?url)])"
    by (rule value_three_failures[OF value_serverError])
  from h v retry_bound[OF h, of 0] show ?thesis by (intro conjI)
qed

text \<open>
  \<^bold>\<open>C8\<close>, as stated, fails: with an upstream that answers every request with status 500,
  the failure that \<open>fetchWithRetry\<close> raises after its three attempts is the error
  \<open>HTTP 500: Internal Server Error\<close>, which is a loading error and not a network error.
\<close>

theorem exhausted_retries_http_error:
  "fetchWithRetry exampleConfig alwaysDown ''https://api.example/Bags'' 0 0 =
     (Inl (JSError ''Error'' ''HTTP 500: Internal Server Error''), 360,
      [(0, Request ''https://api.example/Bags''), (20, Delay 100),
       (120, Request ''https://api.example/Bags''), (140, Delay 200),
       (340, Request ''https://api.example/Bags'')]) \<and>
   classify (JSError ''Error'' ''HTTP 500: Internal Server Error'') = LoadingError \<and>
   classify (JSError ''Error'' ''HTTP 500: Internal Server Error'') \<noteq> NetworkError \<and>
   handleError exampleConfig (JSError ''Error'' ''HTTP 500: Internal Server Error'')
     \<noteq> JSError ''Error'' (NETWORK_ERROR exampleConfig)"
proof -
  have "NETWORK_ERROR exampleConfig \<noteq> LOADING_ERROR exampleConfig"
    by (simp add: exampleConfig_def)
  then show ?thesis
    by (simp add: value_three_failures[OF value_serverError] classify_def handleError_def)
qed

text \<open>
  \<^bold>\<open>C8\<close>, amended. When all \<open>RETRY_COUNT + 1\<close> attempts have failed, the failure that
  \<open>fetchWithRetry\<close> raises is the failure of its last attempt, as it is: the abort error of
  the timeout, the rejection of \<open>fetch\<close>, the error \<open>HTTP status: text\<close> of a response that
  is not 2xx, or the failure to parse the body. It is a network error exactly when it is not
  named \<open>AbortError\<close> and its message includes \<open>Failed to fetch\<close>.
\<close>

theorem exhausted_retries_raise_last_failure:
  assumes "\<forall>t. isl (fst (attemptOnce cfg up url t))"
  shows "\<exists>error tl t' l.
           fetchWithRetry cfg up url 0 t = (Inl error, t', l) \<and>
           length (filter isRequest (map snd l)) = RETRY_COUNT cfg + 1 \<and>
           last l = (tl, Request url) \<and>
           attemptOnce cfg up url tl = (Inl error, t') \<and>
           ((TIMEOUT cfg \<le> latency (up url tl) \<and> error = abortError) \<or>
            (latency (up url tl) < TIMEOUT cfg \<and> settles (up url tl) = Rejects error) \<or>
            (\<exists>r. latency (up url tl) < TIMEOUT cfg \<and> settles (up url tl) = Resolves r \<and>
                  (if ok r then body r = Inl error else error = httpError r))) \<and>
           (classify error = NetworkError \<longleftrightarrow>
              name error \<noteq> ''AbortError'' \<and> stringIncludes (message error) ''Failed to fetch'')"
proof -
  from fetchWithRetry_exhausted[OF assms, of t] obtain error tl t' l where
    r: "fetchWithRetry cfg up url 0 t = (Inl error, t', l)"
    and p: "map snd l = retryPattern cfg url 0"
    and l: "last l = (tl, Request url)"
    and a: "attemptOnce cfg up url tl = (Inl error, t')"
    by blast
  have c: "length (filter isRequest (map snd l)) = RETRY_COUNT cfg + 1"
    using retryPattern_requests[of 0 cfg url] by (simp add: p)
  have k: "classify error = NetworkError \<longleftrightarrow>
              name error \<noteq> ''AbortError'' \<and> stringIncludes (message error) ''Failed to fetch''"
    by (simp add: classify_def)
  show ?thesis
    apply (rule exI[of _ error], rule exI[of _ tl], rule exI[of _ t'], rule exI[of _ l])
    using r c l a attemptOnce_failure[OF a] k by blast
qed

theorem exhausted_retries_raise_last_failure_witness:
  "(\<forall>t. isl (fst (attemptOnce exampleConfig alwaysDown ''https://api.example/Bags'' t))) \<and>
   (\<exists>tl t' l.
      fetchWithRetry exampleConfig alwaysDown ''https://api.example/Bags'' 0 0
        = (Inl (JSError ''Error'' ''HTTP 500: Internal Server Error''), t', l) \<and>
      length (filter isRequest (map snd l)) = 3 \<and>
      last l = (tl, Request ''https://api.example/Bags'') \<and>
      attemptOnce exampleConfig alwaysDown ''https://api.example/Bags'' tl
        = (Inl (JSError ''Error'' ''HTTP 500: Internal Server Error''), t'))"
proof -
  have h: "\<forall>t. isl (fst (attemptOnce exampleConfig alwaysDown ''https://api.example/Bags'' t))"
    by (simp add: value_serverError)
  have rc: "RETRY_COUNT exampleConfig = 2" by (simp add: exampleConfig_def)
  show ?thesis
    using h exhausted_retries_raise_last_failure[OF h, of 0]
    unfolding rc by (auto simp: value_serverError)
qed


section \<open>Cache freshness\<close>

lemma fetchDirect_log: "\<exists>l. fst (snd (snd (fetchDirect cfg up now endpoint))) = (now, Request (apiUrl cfg endpoint)) # l"
proof -
  obtain r t l where f: "fetchWithRetry cfg up (apiUrl cfg endpoint) 0 now = (r, t, l)"
    by (cases "fetchWithRetry cfg up (apiUrl cfg endpoint) 0 now") auto
  with fetchWithRetry_first_event[of cfg up "apiUrl cfg endpoint" 0 now]
  obtain l' where "l = (now, Request (apiUrl cfg endpoint)) # l'" by auto
  then show ?thesis using f
    by (auto simp: fetchDirect_def split: sum.splits)
qed

lemma fetchDirect_failure_writes:
  "isl (fst (fetchDirect cfg up now endpoint)) \<Longrightarrow> snd (snd (snd (fetchDirect cfg up now endpoint))) = []"
  by (auto simp: fetchDirect_def split: sum.splits prod.splits)

lemma commit_Nil: "commit cfg [] c = c"
  by (simp add: commit_def)

lemma fetchHotProducts_Suc:
  "fetchHotProducts (Suc fuel) cfg up c now =
     (if otherEndpoints cfg = [] then Some (Inr [], now, [], [])
      else
        (case those (subFetches fuel cfg up c now) of
           None \<Rightarrow> None
         | Some settled \<Rightarrow>
             Some (Inr (seededShuffle (allProducts settled) (real_of_int (now div 259200000))),
                   fold max (map (\<lambda>r. fst (snd r)) settled) now,
                   concat (map (\<lambda>r. fst (snd (snd r))) settled),
                   concat (map (\<lambda>r. snd (snd (snd r))) settled))))"
  by (simp add: fetchHotProducts.simps otherEndpoints_def subFetches_def allProducts_def Let_def
      comp_def split: option.split)

lemma those_map_Some: "those (map Some ys) = Some ys"
  by (induction ys) simp_all

lemma all_Some_map: "(\<forall>x \<in> set xs. f x \<noteq> None) \<Longrightarrow> \<exists>ys. map f xs = map Some ys"
proof (induction xs)
  case Nil
  then show ?case by simp
next
  case (Cons x xs)
  then obtain ys y where "map f xs = map Some ys" "f x = Some y" by auto
  then have "map f (x # xs) = map Some (y # ys)" by simp
  then show ?case by blast
qed

lemma fetchProducts_not_Hot:
  "endpoint \<noteq> ''Hot'' \<Longrightarrow> fetchProducts fuel cfg up c now endpoint \<noteq> None"
  by (cases "cacheLookup cfg c now endpoint") (simp_all add: fetchProducts.simps)

lemma subFetches_settle:
  "''Hot'' \<notin> set (otherEndpoints cfg) \<Longrightarrow> \<exists>settled. subFetches fuel cfg up c now = map Some settled"
proof -
  assume a: "''Hot'' \<notin> set (otherEndpoints cfg)"
  have "\<forall>endpoint \<in> set (otherEndpoints cfg). fetchProducts fuel cfg up c now endpoint \<noteq> None"
  proof
    fix endpoint assume "endpoint \<in> set (otherEndpoints cfg)"
    with a have "endpoint \<noteq> ''Hot''" by auto
    then show "fetchProducts fuel cfg up c now endpoint \<noteq> None" by (rule fetchProducts_not_Hot)
  qed
  then show ?thesis unfolding subFetches_def by (rule all_Some_map)
qed

lemma hot_value:
  assumes "subFetches fuel cfg up c now = map Some settled"
  shows "\<exists>t l ws. fetchHotProducts (Suc fuel) cfg up c now =
           Some (Inr (seededShuffle (allProducts settled) (real_of_int (now div 259200000))), t, l, ws)"
proof (cases "otherEndpoints cfg = []")
  case True
  then have "settled = []" using assms by (simp add: subFetches_def)
  then show ?thesis using True
    by (simp add: fetchHotProducts_Suc allProducts_def seededShuffle_empty)
next
  case False
  then show ?thesis
    by (simp add: fetchHotProducts_Suc assms those_map_Some)
qed

lemma fetchHotProducts_Inr:
  "fetchHotProducts fuel cfg up c now = Some (r, t, l, ws) \<Longrightarrow> \<exists>products. r = Inr products"
  by (cases fuel) (auto simp: fetchHotProducts.simps fetchHotProducts_Suc split: if_splits option.splits)

lemma fetchProducts_Hot:
  assumes "cacheLookup cfg c now ''Hot'' = None"
  shows "fetchProducts fuel cfg up c now ''Hot'' =
           (case fetchHotProducts fuel cfg up c now of
              None \<Rightarrow> None
            | Some (r, t, l, ws) \<Rightarrow>
                Some (r, t, l, ws @ (if CACHE_ENABLED cfg then [(t, ''Hot'', projr r)] else [])))"
proof (cases "fetchHotProducts fuel cfg up c now")
  case None
  then show ?thesis using assms by (simp add: fetchProducts.simps)
next
  case (Some out)
  obtain r t l ws where out: "out = (r, t, l, ws)" by (cases out) auto
  with Some fetchHotProducts_Inr obtain products where "r = Inr products" by blast
  then show ?thesis using assms Some out by (simp add: fetchProducts.simps)
qed

lemma value_apiUrl:
  "apiUrl exampleConfig ''Shoes'' = ''https://api.example/Shoes''"
  "apiUrl exampleConfig ''Bags'' = ''https://api.example/Bags''"
  by (simp_all add: apiUrl_def exampleConfig_def encodeURIComponent_def unreserved_def)

lemma value_cacheLookup_empty: "cacheLookup cfg [] now key = None"
  by (simp add: cacheLookup_def)

text \<open>
  \<^bold>\<open>C5.\<close> With caching enabled and an entry with timestamp \<open>T\<close> held under the key, a call of
  \<open>fetchProducts\<close> at time \<open>now\<close> returns the data of the entry at once, with no request, no
  delay and no write to the cache, when \<open>now - T < EXPIRY_TIME\<close>. When \<open>now - T \<ge> EXPIRY_TIME\<close>
  the entry is not used: for a category of its own the call is the network fetch, whose first
  event is a request issued at \<open>now\<close>, and for Hot it is the aggregation. Staleness has no
  other effect: a stale entry stays in the cache when the fetch fails, and which keys a put
  keeps does not depend on any timestamp.
\<close>

theorem cache_hit_iff_fresh:
  assumes "CACHE_ENABLED cfg" and "map_of c key = Some entry"
  shows "(now - timestamp entry < EXPIRY_TIME cfg \<longrightarrow>
            fetchProducts fuel cfg up c now key = Some (Inr (data entry), now, [], []) \<and>
            callFetchProducts fuel cfg up (c, now) key = Some (Inr (data entry), (c, now), [])) \<and>
         (EXPIRY_TIME cfg \<le> now - timestamp entry \<and> key \<noteq> ''Hot'' \<longrightarrow>
            fetchProducts fuel cfg up c now key = Some (fetchDirect cfg up now key) \<and>
            (\<exists>l. fst (snd (snd (fetchDirect cfg up now key))) = (now, Request (apiUrl cfg key)) # l) \<and>
            (isl (fst (fetchDirect cfg up now key)) \<longrightarrow>
               (\<exists>r t l. callFetchProducts fuel cfg up (c, now) key = Some (r, (c, t), l)))) \<and>
         (EXPIRY_TIME cfg \<le> now - timestamp entry \<and> key = ''Hot'' \<longrightarrow>
            fetchProducts fuel cfg up c now key =
              (case fetchHotProducts fuel cfg up c now of
                 None \<Rightarrow> None
               | Some (r, t, l, ws) \<Rightarrow> Some (r, t, l, ws @ [(t, ''Hot'', projr r)]))) \<and>
         (\<forall>c' k d d' t t'. map fst c' = map fst c \<longrightarrow>
            map fst (updateCache cfg k d t c') = map fst (updateCache cfg k d' t' c))"
proof -
  have fresh: "cacheLookup cfg c now key = Some (data entry)"
    if "now - timestamp entry < EXPIRY_TIME cfg"
    using assms that by (simp add: cacheLookup_def)
  have stale: "cacheLookup cfg c now key = None"
    if "EXPIRY_TIME cfg \<le> now - timestamp entry"
    using assms that by (simp add: cacheLookup_def)
  have 1: "fetchProducts fuel cfg up c now key = Some (Inr (data entry), now, [], []) \<and>
           callFetchProducts fuel cfg up (c, now) key = Some (Inr (data entry), (c, now), [])"
    if "now - timestamp entry < EXPIRY_TIME cfg"
    using fresh[OF that] by (simp add: fetchProducts_hit callFetchProducts_def commit_Nil)
  have 2: "fetchProducts fuel cfg up c now key = Some (fetchDirect cfg up now key)"
    if "EXPIRY_TIME cfg \<le> now - timestamp entry" "key \<noteq> ''Hot''"
    using stale[OF that(1)] that(2) by (rule fetchProducts_direct)
  have 3: "\<exists>r t l. callFetchProducts fuel cfg up (c, now) key = Some (r, (c, t), l)"
    if "EXPIRY_TIME cfg \<le> now - timestamp entry" "key \<noteq> ''Hot''"
       "isl (fst (fetchDirect cfg up now key))"
  proof -
    obtain r t l ws where d: "fetchDirect cfg up now key = (r, t, l, ws)"
      by (cases "fetchDirect cfg up now key") auto
    with fetchDirect_failure_writes[OF that(3)] have "ws = []" by simp
    then show ?thesis using 2[OF that(1,2)] d
      by (simp add: callFetchProducts_def commit_Nil)
  qed
  have 4: "fetchProducts fuel cfg up c now key =
              (case fetchHotProducts fuel cfg up c now of
                 None \<Rightarrow> None
               | Some (r, t, l, ws) \<Rightarrow> Some (r, t, l, ws @ [(t, ''Hot'', projr r)]))"
    if "EXPIRY_TIME cfg \<le> now - timestamp entry" "key = ''Hot''"
    using stale[OF that(1)] that(2) assms(1)
    by (simp add: fetchProducts_Hot split: option.split prod.split)
  show ?thesis
    using 1 2 3 4 fetchDirect_log keys_updateCache_timeless by blast
qed

theorem cache_hit_iff_fresh_witness:
  "(CACHE_ENABLED exampleConfig \<and>
    map_of [(''Shoes'', \<lparr>data = [Some recordA], timestamp = 0\<rparr>)] ''Shoes''
      = Some \<lparr>data = [Some recordA], timestamp = 0\<rparr>) \<and>
   fetchProducts 0 exampleConfig alwaysDown [(''Shoes'', \<lparr>data = [Some recordA], timestamp = 0\<rparr>)]
     299999 ''Shoes'' = Some (Inr [Some recordA], 299999, [], []) \<and>
   fetchProducts 0 exampleConfig alwaysDown [(''Shoes'', \<lparr>data = [Some recordA], timestamp = 0\<rparr>)]
     300000 ''Shoes'' = Some (fetchDirect exampleConfig alwaysDown 300000 ''Shoes'') \<and>
   (\<exists>l. fst (snd (snd (fetchDirect exampleConfig alwaysDown 300000 ''Shoes'')))
          = (300000, Request ''https://api.example/Shoes'') # l)"
proof -
  let ?c = "[(''Shoes'', \<lparr>data = [Some recordA], timestamp = 0\<rparr>)]"
  let ?e = "\<lparr>data = [Some recordA], timestamp = 0\<rparr>"
  have h1: "CACHE_ENABLED exampleConfig" by (simp add: exampleConfig_def)
  have h2: "map_of ?c ''Shoes'' = Some ?e" by simp
  have x: "EXPIRY_TIME exampleConfig = 300000" by (simp add: exampleConfig_def)
  have "fetchProducts 0 exampleConfig alwaysDown ?c 299999 ''Shoes'' = Some (Inr [Some recordA], 299999, [], [])"
    using cache_hit_iff_fresh[OF h1 h2, of 299999 0 alwaysDown] by (simp add: x)
  moreover have "fetchProducts 0 exampleConfig alwaysDown ?c 300000 ''Shoes''
        = Some (fetchDirect exampleConfig alwaysDown 300000 ''Shoes'') \<and>
      (\<exists>l. fst (snd (snd (fetchDirect exampleConfig alwaysDown 300000 ''Shoes'')))
          = (300000, Request ''https://api.example/Shoes'') # l)"
    using cache_hit_iff_fresh[OF h1 h2, of 300000 0 alwaysDown] by (simp add: x value_apiUrl)
  ultimately show ?thesis using h1 h2 by blast
qed


section \<open>The Hot aggregation\<close>

lemma allProducts_all_fail: "\<forall>r \<in> set settled. isl (fst r) \<Longrightarrow> allProducts settled = []"
  by (auto simp: allProducts_def catchEmpty_def split: sum.splits)

text \<open>
  \<^bold>\<open>C1.\<close> Take a call \<open>fetchProducts("Hot")\<close> that is not served from the cache. Whenever its
  sub-fetches have all settled, some resolved and some rejected, the call returns and does
  not raise: its value is the shuffle, seeded with the three-day bucket of the time of the
  call, of the concatenation in category order of what the sub-fetches resolved to, a rejected
  sub-fetch counting as the empty list. The value holds every element of that concatenation,
  each as often, and besides them only \<open>undefined\<close> cells; when the indices drawn by the
  shuffle stay in range it is a permutation of the concatenation, and when every sub-fetch is
  rejected it is the empty list. Every sub-fetch does settle when no category other than Hot has the
  endpoint Hot.
\<close>

theorem hot_aggregation_isolates_failures:
  assumes "cacheLookup cfg c now ''Hot'' = None"
  shows "(''Hot'' \<notin> set (otherEndpoints cfg) \<longrightarrow>
            (\<exists>settled. subFetches fuel cfg up c now = map Some settled)) \<and>
         (\<forall>settled. subFetches fuel cfg up c now = map Some settled \<longrightarrow>
            (\<exists>hotData t l ws.
               fetchProducts (Suc fuel) cfg up c now ''Hot'' = Some (Inr hotData, t, l, ws) \<and>
               hotData =
                 seededShuffle
                   (concat (map (\<lambda>r. case fst r of Inl err \<Rightarrow> [] | Inr products \<Rightarrow> products)
                                settled))
                   (real_of_int (now div 259200000)) \<and>
               (\<exists>k. mset hotData =
                      mset (concat (map (\<lambda>r. case fst r of Inl err \<Rightarrow> [] | Inr products \<Rightarrow> products)
                                        settled))
                        + replicate_mset k None) \<and>
               (drawsInRange (real_of_int (now div 259200000))
                  (length (concat (map (\<lambda>r. case fst r of Inl err \<Rightarrow> [] | Inr products \<Rightarrow> products)
                                       settled)) - 1) \<longrightarrow>
                mset hotData =
                  mset (concat (map (\<lambda>r. case fst r of Inl err \<Rightarrow> [] | Inr products \<Rightarrow> products)
                                    settled))) \<and>
               ((\<forall>r \<in> set settled. isl (fst r)) \<longrightarrow> hotData = [])))"
proof -
  have "\<exists>hotData t l ws.
               fetchProducts (Suc fuel) cfg up c now ''Hot'' = Some (Inr hotData, t, l, ws) \<and>
               hotData =
                 seededShuffle
                   (concat (map (\<lambda>r. case fst r of Inl err \<Rightarrow> [] | Inr products \<Rightarrow> products)
                                settled))
                   (real_of_int (now div 259200000)) \<and>
               (\<exists>k. mset hotData =
                      mset (concat (map (\<lambda>r. case fst r of Inl err \<Rightarrow> [] | Inr products \<Rightarrow> products)
                                        settled))
                        + replicate_mset k None) \<and>
               (drawsInRange (real_of_int (now div 259200000))
                  (length (concat (map (\<lambda>r. case fst r of Inl err \<Rightarrow> [] | Inr products \<Rightarrow> products)
                                       settled)) - 1) \<longrightarrow>
                mset hotData =
                  mset (concat (map (\<lambda>r. case fst r of Inl err \<Rightarrow> [] | Inr products \<Rightarrow> products)
                                    settled))) \<and>
               ((\<forall>r \<in> set settled. isl (fst r)) \<longrightarrow> hotData = [])"
    if s: "subFetches fuel cfg up c now = map Some settled" for settled
  proof -
    from hot_value[OF s] obtain t l ws where
      h: "fetchHotProducts (Suc fuel) cfg up c now =
            Some (Inr (seededShuffle (allProducts settled) (real_of_int (now div 259200000))), t, l, ws)"
      by blast
    let ?hot = "seededShuffle (allProducts settled) (real_of_int (now div 259200000))"
    have a: "allProducts settled =
        concat (map (\<lambda>r. case fst r of Inl err \<Rightarrow> [] | Inr products \<Rightarrow> products) settled)"
      by (simp add: allProducts_def catchEmpty_def[abs_def])
    have f: "fetchProducts (Suc fuel) cfg up c now ''Hot'' =
        Some (Inr ?hot, t, l, ws @ (if CACHE_ENABLED cfg then [(t, ''Hot'', ?hot)] else []))"
      by (simp add: fetchProducts_Hot[OF assms] h)
    have e: "(\<forall>r \<in> set settled. isl (fst r)) \<longrightarrow> ?hot = []"
      by (auto simp: allProducts_all_fail seededShuffle_empty)
    have m: "drawsInRange (real_of_int (now div 259200000)) (length (allProducts settled) - 1) \<longrightarrow>
               mset ?hot = mset (allProducts settled)"
      by (simp add: mset_seededShuffle)
    have k: "\<exists>k. mset ?hot = mset (allProducts settled) + replicate_mset k None"
      by (rule seededShuffle_keeps_elements)
    show ?thesis
      apply (rule exI[of _ ?hot], rule exI[of _ t], rule exI[of _ l])
      apply (rule exI[of _ "ws @ (if CACHE_ENABLED cfg then [(t, ''Hot'', ?hot)] else [])"])
      using f e m k unfolding a by blast
  qed
  then show ?thesis using subFetches_settle by blast
qed

lemma value_otherEndpoints: "otherEndpoints exampleConfig = [''Shoes'', ''Bags'']"
  by (simp add: otherEndpoints_def exampleConfig_def)

lemma value_shoesUp:
  "attemptOnce exampleConfig shoesUp ''https://api.example/Shoes'' t
     = (Inr (JArr [recordA, recordB]), t + 25)"
  "attemptOnce exampleConfig shoesUp ''https://api.example/Bags'' t
     = (Inl (JSError ''Error'' ''HTTP 500: Internal Server Error''), t + 20)"
  by (simp_all add: attemptOnce_def shoesUp_def shoesBody_def serverError_def exampleConfig_def
      ok_def httpError_def stringOfNat.simps digitChar_def)

lemma value_fetchDirect_Shoes:
  "fetchDirect exampleConfig shoesUp 0 ''Shoes'' =
     (Inr [Some recordA], 25, [(0, Request ''https://api.example/Shoes'')], [(25, ''Shoes'', [Some recordA])])"
proof -
  have "fetchWithRetry exampleConfig shoesUp ''https://api.example/Shoes'' 0 0 =
          (Inr (JArr [recordA, recordB]), 25, [(0, Request ''https://api.example/Shoes'')])"
    by (subst fetchWithRetry.simps) (simp add: value_shoesUp)
  moreover have "CACHE_ENABLED exampleConfig" by (simp add: exampleConfig_def)
  ultimately show ?thesis
    by (simp add: fetchDirect_def value_apiUrl value_validProducts)
qed

lemma value_fetchDirect_Bags:
  "fetchDirect exampleConfig shoesUp 0 ''Bags'' =
     (Inl (JSError ''Error'' ''Failed to load products''), 360,
      [(0, Request ''https://api.example/Bags''), (20, Delay 100),
       (120, Request ''https://api.example/Bags''), (140, Delay 200),
       (340, Request ''https://api.example/Bags'')], [])"
proof -
  have "handleError exampleConfig (JSError ''Error'' ''HTTP 500: Internal Server Error'')
          = JSError ''Error'' ''Failed to load products''"
    by (simp add: handleError_def exampleConfig_def)
  then show ?thesis
    by (simp add: fetchDirect_def value_apiUrl value_three_failures[OF value_shoesUp(2)])
qed

theorem hot_aggregation_isolates_failures_witness:
  "(cacheLookup exampleConfig [] 0 ''Hot'' = None \<and> ''Hot'' \<notin> set (otherEndpoints exampleConfig)) \<and>
   subFetches 0 exampleConfig shoesUp [] 0 =
     map Some
       [(Inr [Some recordA], 25, [(0, Request ''https://api.example/Shoes'')],
         [(25, ''Shoes'', [Some recordA])]),
        (Inl (JSError ''Error'' ''Failed to load products''), 360,
         [(0, Request ''https://api.example/Bags''), (20, Delay 100),
          (120, Request ''https://api.example/Bags''), (140, Delay 200),
          (340, Request ''https://api.example/Bags'')], [])] \<and>
   (\<exists>t l ws. fetchProducts (Suc 0) exampleConfig shoesUp [] 0 ''Hot'' = Some (Inr [Some recordA], t, l, ws))"
proof -
  let ?settled =
    "[(Inr [Some recordA], 25, [(0, Request ''https://api.example/Shoes'')],
         [(25, ''Shoes'', [Some recordA])]),
        (Inl (JSError ''Error'' ''Failed to load products''), 360,
         [(0, Request ''https://api.example/Bags''), (20, Delay 100),
          (120, Request ''https://api.example/Bags''), (140, Delay 200),
          (340, Request ''https://api.example/Bags'')], [])] :: outcome list"
  have h1: "cacheLookup exampleConfig [] 0 ''Hot'' = None" by (rule value_cacheLookup_empty)
  have h2: "''Hot'' \<notin> set (otherEndpoints exampleConfig)" by (simp add: value_otherEndpoints)
  have s: "subFetches 0 exampleConfig shoesUp [] 0 = map Some ?settled"
    by (simp add: subFetches_def value_otherEndpoints fetchProducts_direct value_cacheLookup_empty
        value_fetchDirect_Shoes value_fetchDirect_Bags)
  from hot_aggregation_isolates_failures[OF h1, of 0 shoesUp] s
  obtain hotData t l ws where
    b: "fetchProducts (Suc 0) exampleConfig shoesUp [] 0 ''Hot'' = Some (Inr hotData, t, l, ws)"
    and c: "hotData =
             seededShuffle
               (concat (map (\<lambda>r. case fst r of Inl err \<Rightarrow> [] | Inr products \<Rightarrow> products) ?settled))
               (real_of_int (0 div 259200000))"
    by blast
  from c have "hotData = [Some recordA]" by (simp add: value_seededShuffle_single)
  with b have "\<exists>t l ws. fetchProducts (Suc 0) exampleConfig shoesUp [] 0 ''Hot'' = Some (Inr [Some recordA], t, l, ws)"
    by blast
  with h1 h2 s show ?thesis by blast
qed

text \<open>
  \<^bold>\<open>C7.\<close> The shuffle is a function of the elements of its input array and of the seed
  alone: two calls with the same seed on arrays with the same elements, in whatever stores
  and at whatever addresses, return arrays with the same elements in the same order. The Hot
  aggregation seeds it with \<open>floor(now / 259200000)\<close>, so two runs whose times fall into the
  same three-day bucket and whose sub-fetches merge to the same list return the same list.
\<close>

theorem shuffle_deterministic_within_bucket:
  "(array1 < length h1 \<and> array2 < length h2 \<and> h1 ! array1 = h2 ! array2 \<longrightarrow>
      fst (seededShuffleStore h1 array1 seed) ! snd (seededShuffleStore h1 array1 seed)
        = fst (seededShuffleStore h2 array2 seed) ! snd (seededShuffleStore h2 array2 seed)) \<and>
   (now1 div 259200000 = now2 div 259200000 \<and>
    subFetches fuel1 cfg1 up1 c1 now1 = map Some settled1 \<and>
    subFetches fuel2 cfg2 up2 c2 now2 = map Some settled2 \<and>
    allProducts settled1 = allProducts settled2 \<longrightarrow>
      map_option fst (fetchHotProducts (Suc fuel1) cfg1 up1 c1 now1)
        = Some (Inr (seededShuffle (allProducts settled1) (real_of_int (now1 div 259200000)))) \<and>
      map_option fst (fetchHotProducts (Suc fuel2) cfg2 up2 c2 now2)
        = map_option fst (fetchHotProducts (Suc fuel1) cfg1 up1 c1 now1))"
proof -
  have a: "fst (seededShuffleStore h1 array1 seed) ! snd (seededShuffleStore h1 array1 seed)
        = fst (seededShuffleStore h2 array2 seed) ! snd (seededShuffleStore h2 array2 seed)"
    if "array1 < length h1" "array2 < length h2" "h1 ! array1 = h2 ! array2"
    using that by (simp add: seededShuffleStore_value)
  have b: "map_option fst (fetchHotProducts (Suc fuel) cfg up c now)
        = Some (Inr (seededShuffle (allProducts settled) (real_of_int (now div 259200000))))"
    if "subFetches fuel cfg up c now = map Some settled" for fuel cfg up c now settled
    using hot_value[OF that] by auto
  have c: "map_option fst (fetchHotProducts (Suc fuel1) cfg1 up1 c1 now1)
        = Some (Inr (seededShuffle (allProducts settled1) (real_of_int (now1 div 259200000)))) \<and>
      map_option fst (fetchHotProducts (Suc fuel2) cfg2 up2 c2 now2)
        = map_option fst (fetchHotProducts (Suc fuel1) cfg1 up1 c1 now1)"
    if "now1 div 259200000 = now2 div 259200000"
      "subFetches fuel1 cfg1 up1 c1 now1 = map Some settled1"
      "subFetches fuel2 cfg2 up2 c2 now2 = map Some settled2"
      "allProducts settled1 = allProducts settled2"
  proof -
    note b1 = b[OF that(2)] and b2 = b[OF that(3)]
    have "map_option fst (fetchHotProducts (Suc fuel2) cfg2 up2 c2 now2)
        = Some (Inr (seededShuffle (allProducts settled1) (real_of_int (now1 div 259200000))))"
      by (simp only: b2 that(1) that(4))
    then show ?thesis by (simp only: b1 simp_thms)
  qed
  show ?thesis using a c by blast
qed

theorem shuffle_deterministic_within_bucket_witness:
  "((0::nat) < length [[Some recordA, Some recordC]] \<and> (1::nat) < length [[], [Some recordA, Some recordC]] \<and>
    [[Some recordA, Some recordC]] ! 0 = [[], [Some recordA, Some recordC]] ! 1) \<and>
   fst (seededShuffleStore [[Some recordA, Some recordC]] 0 5) ! snd (seededShuffleStore [[Some recordA, Some recordC]] 0 5)
     = fst (seededShuffleStore [[], [Some recordA, Some recordC]] 1 5) ! snd (seededShuffleStore [[], [Some recordA, Some recordC]] 1 5) \<and>
   ((10::int) div 259200000 = 259199999 div 259200000 \<and>
    subFetches 0 exampleConfig alwaysDown
      [(''Shoes'', \<lparr>data = [Some recordA], timestamp = 0\<rparr>), (''Bags'', \<lparr>data = [Some recordC], timestamp = 0\<rparr>)] 10
      = map Some [(Inr [Some recordA], 10, [], []), (Inr [Some recordC], 10, [], [])] \<and>
    subFetches 0 (exampleConfig\<lparr>EXPIRY_TIME := 300000000\<rparr>) shoesUp
      [(''Bags'', \<lparr>data = [Some recordC], timestamp = 9\<rparr>), (''Shoes'', \<lparr>data = [Some recordA], timestamp = 8\<rparr>)] 259199999
      = map Some [(Inr [Some recordA], 259199999, [], []), (Inr [Some recordC], 259199999, [], [])] \<and>
    allProducts [(Inr [Some recordA], 10, [], []), (Inr [Some recordC], 10, [], [])]
      = allProducts [(Inr [Some recordA], 259199999, [], []), (Inr [Some recordC], 259199999, [], [])]) \<and>
   map_option fst (fetchHotProducts (Suc 0) exampleConfig alwaysDown
      [(''Shoes'', \<lparr>data = [Some recordA], timestamp = 0\<rparr>), (''Bags'', \<lparr>data = [Some recordC], timestamp = 0\<rparr>)] 10)
     = Some (Inr [Some recordC, Some recordA]) \<and>
   map_option fst (fetchHotProducts (Suc 0) (exampleConfig\<lparr>EXPIRY_TIME := 300000000\<rparr>) shoesUp
      [(''Bags'', \<lparr>data = [Some recordC], timestamp = 9\<rparr>), (''Shoes'', \<lparr>data = [Some recordA], timestamp = 8\<rparr>)] 259199999)
     = Some (Inr [Some recordC, Some recordA])"
proof -
  let ?c1 = "[(''Shoes'', \<lparr>data = [Some recordA], timestamp = 0\<rparr>), (''Bags'', \<lparr>data = [Some recordC], timestamp = 0\<rparr>)]"
  let ?c2 = "[(''Bags'', \<lparr>data = [Some recordC], timestamp = 9\<rparr>), (''Shoes'', \<lparr>data = [Some recordA], timestamp = 8\<rparr>)]"
  let ?cfg2 = "exampleConfig\<lparr>EXPIRY_TIME := 300000000\<rparr>"
  let ?s1 = "[(Inr [Some recordA], 10, [], []), (Inr [Some recordC], 10, [], [])] :: outcome list"
  let ?s2 = "[(Inr [Some recordA], 259199999, [], []), (Inr [Some recordC], 259199999, [], [])] :: outcome list"
  have a: "(0::nat) < length [[Some recordA, Some recordC]] \<and> (1::nat) < length [[], [Some recordA, Some recordC]] \<and>
    [[Some recordA, Some recordC]] ! 0 = [[], [Some recordA, Some recordC]] ! 1" by simp
  have o2: "otherEndpoints ?cfg2 = [''Shoes'', ''Bags'']"
    by (simp add: otherEndpoints_def exampleConfig_def)
  have b1: "(10::int) div 259200000 = 259199999 div 259200000" by simp
  have l1: "cacheLookup exampleConfig ?c1 10 ''Shoes'' = Some [Some recordA]"
    "cacheLookup exampleConfig ?c1 10 ''Bags'' = Some [Some recordC]"
    by (simp_all add: cacheLookup_def exampleConfig_def)
  have l2: "cacheLookup ?cfg2 ?c2 259199999 ''Shoes'' = Some [Some recordA]"
    "cacheLookup ?cfg2 ?c2 259199999 ''Bags'' = Some [Some recordC]"
    by (simp_all add: cacheLookup_def exampleConfig_def)
  have b2: "subFetches 0 exampleConfig alwaysDown ?c1 10 = map Some ?s1"
    by (simp add: subFetches_def value_otherEndpoints fetchProducts_hit l1)
  have b3: "subFetches 0 ?cfg2 shoesUp ?c2 259199999 = map Some ?s2"
    by (simp add: subFetches_def o2 fetchProducts_hit l2)
  have b4: "allProducts ?s1 = allProducts ?s2" by (simp add: allProducts_def catchEmpty_def)
  have v: "seededShuffle (allProducts ?s1) (real_of_int (10 div 259200000)) = [Some recordC, Some recordA]"
    by (simp add: allProducts_def catchEmpty_def value_seededShuffle_pair)
  note t = shuffle_deterministic_within_bucket[of 0 "[[Some recordA, Some recordC]]" 1 "[[], [Some recordA, Some recordC]]" 5
      10 259199999 0 exampleConfig alwaysDown ?c1 ?s1 0 ?cfg2 shoesUp ?c2 ?s2]
  have s: "fst (seededShuffleStore [[Some recordA, Some recordC]] 0 5) ! snd (seededShuffleStore [[Some recordA, Some recordC]] 0 5)
     = fst (seededShuffleStore [[], [Some recordA, Some recordC]] 1 5) ! snd (seededShuffleStore [[], [Some recordA, Some recordC]] 1 5)"
    using t a by blast
  have h: "map_option fst (fetchHotProducts (Suc 0) exampleConfig alwaysDown ?c1 10)
        = Some (Inr (seededShuffle (allProducts ?s1) (real_of_int (10 div 259200000)))) \<and>
      map_option fst (fetchHotProducts (Suc 0) ?cfg2 shoesUp ?c2 259199999)
        = map_option fst (fetchHotProducts (Suc 0) exampleConfig alwaysDown ?c1 10)"
    using t b1 b2 b3 b4 by blast
  show ?thesis
    using a s b1 b2 b3 b4 h unfolding v by simp
qed


section \<open>The example of the specification\<close>

lemma value_shoesLate:
  "t < 200 \<Longrightarrow> attemptOnce exampleConfig shoesLate ''https://api.example/Shoes'' t
     = (Inl (JSError ''Error'' ''HTTP 500: Internal Server Error''), t + 20)"
  "200 \<le> t \<Longrightarrow> attemptOnce exampleConfig shoesLate ''https://api.example/Shoes'' t
     = (Inr (JArr [recordA, recordB]), t + 25)"
  by (simp_all add: attemptOnce_def shoesLate_def shoesBody_def serverError_def exampleConfig_def
      ok_def httpError_def stringOfNat.simps digitChar_def)

text \<open>The end-to-end example of the specification: the feed of Shoes fails twice and then
  answers with a valid and an invalid record. The call resolves to the valid record after
  three requests and delays of 100 and 200 milliseconds, and caches it.\<close>

lemma end_to_end_example:
  "fetchProducts 0 exampleConfig shoesLate [] 0 ''Shoes'' =
     Some (Inr [Some recordA], 365,
           [(0, Request ''https://api.example/Shoes''), (20, Delay 100),
            (120, Request ''https://api.example/Shoes''), (140, Delay 200),
            (340, Request ''https://api.example/Shoes'')],
           [(365, ''Shoes'', [Some recordA])])"
proof -
  let ?url = "''https://api.example/Shoes''"
  have rc: "RETRY_COUNT exampleConfig = 2" "RETRY_DELAY exampleConfig = 100"
    "CACHE_ENABLED exampleConfig"
    by (simp_all add: exampleConfig_def)
  have "fetchWithRetry exampleConfig shoesLate ?url (Suc (Suc 0)) 340 =
      (Inr (JArr [recordA, recordB]), 365, [(340, Request ?url)])"
    by (subst fetchWithRetry.simps) (simp add: value_shoesLate rc)
  then have "fetchWithRetry exampleConfig shoesLate ?url (Suc 0) 120 =
      (Inr (JArr [recordA, recordB]), 365, [(120, Request ?url), (140, Delay 200), (340, Request ?url)])"
    by (subst fetchWithRetry.simps) (simp add: value_shoesLate rc)
  then have "fetchWithRetry exampleConfig shoesLate ?url 0 0 =
      (Inr (JArr [recordA, recordB]), 365,
       [(0, Request ?url), (20, Delay 100), (120, Request ?url), (140, Delay 200), (340, Request ?url)])"
    by (subst fetchWithRetry.simps) (simp add: value_shoesLate rc)
  then show ?thesis
    by (simp add: fetchProducts_direct value_cacheLookup_empty fetchDirect_def value_apiUrl
        value_validProducts rc)
qed

end
